theory Spec2Isabelle
  imports Main "HOL-Library.Word" "HOL-Library.Sublist"
begin

section \<open>C strings, buffers and streams\<close>

text \<open>
  Bytes are \<^typ>\<open>char\<close>; a \<open>char\<close> array is a \<^typ>\<open>string\<close> whose length is the size of
  the array. The C string held by an array is the run of bytes before the first NUL.
\<close>

definition NUL :: char where
  "NUL = CHR 0x00"

definition cstring :: "string \<Rightarrow> string" where
  "cstring buf = takeWhile (\<lambda>c. c \<noteq> NUL) buf"

definition strlen :: "string \<Rightarrow> nat" where
  "strlen s = length (cstring s)"

text \<open>
  \<open>snprintf(buf, n, ...)\<close>, given the fully formatted text: at most \<open>n - 1\<close> bytes
  of the text are stored, followed by a NUL; the bytes of the array behind them are left
  as they were. The return value is the length of the whole text.
\<close>

definition snprintf :: "string \<Rightarrow> nat \<Rightarrow> string \<Rightarrow> string \<times> int" where
  "snprintf buf n txt =
     (if n = 0 then (buf, int (length txt))
      else let s = take (n - 1) txt
           in (s @ [NUL] @ drop (length s + 1) buf, int (length txt)))"

text \<open>The conversion \<open>%d\<close>: a signed decimal numeral.\<close>

fun string_of_nat :: "nat \<Rightarrow> string" where
  "string_of_nat n =
     (if n < 10 then [''0123456789'' ! n]
      else string_of_nat (n div 10) @ [''0123456789'' ! (n mod 10)])"

declare string_of_nat.simps [simp del]

definition fmt_d :: "int \<Rightarrow> string" where
  "fmt_d i = (if i < 0 then CHR ''-'' # string_of_nat (nat (- i)) else string_of_nat (nat i))"

text \<open>
  An open stream (\<open>FILE *\<close>) on a regular file: the bytes of the file, the offset of the
  stream, and the offset at which the medium fails, if it does (\<open>eio = Some k\<close>: the
  first \<open>k\<close> bytes can be read, a read beyond them ends with an error). The C library
  reports an error and the end of the file in the same way: \<open>fgetc\<close> returns \<open>EOF\<close>,
  \<open>fread\<close> returns a short count.
\<close>

record FILE =
  bytes :: string
  eio :: "nat option"
  pos :: nat

definition readable :: "FILE \<Rightarrow> string" where
  "readable fp = (case eio fp of None \<Rightarrow> bytes fp | Some k \<Rightarrow> take k (bytes fp))"

text \<open>\<open>fgetc\<close>: \<open>None\<close> is \<open>EOF\<close>.\<close>

definition fgetc :: "FILE \<Rightarrow> char option \<times> FILE" where
  "fgetc fp =
     (if pos fp < length (readable fp)
      then (Some (readable fp ! pos fp), fp\<lparr>pos := Suc (pos fp)\<rparr>)
      else (None, fp))"

text \<open>\<open>fread(buf, 1, n, fp)\<close>: the bytes delivered (their number is the return value).\<close>

definition fread :: "nat \<Rightarrow> FILE \<Rightarrow> string \<times> FILE" where
  "fread n fp =
     (let chunk = take n (drop (pos fp) (readable fp))
      in (chunk, fp\<lparr>pos := pos fp + length chunk\<rparr>))"

definition rewind :: "FILE \<Rightarrow> FILE" where
  "rewind fp = fp\<lparr>pos := 0\<rparr>"

section \<open>The scan of the environment record\<close>

text \<open>
  \<open>static const char * const X509_USER_PROXY = "\0X509_USER_PROXY=";\<close> with the
  terminator the compiler appends, and
  \<open>X509_USER_PROXY_LEN = strlen(X509_USER_PROXY + 1) + 1\<close>.
\<close>

definition X509_USER_PROXY :: string where
  "X509_USER_PROXY = NUL # ''X509_USER_PROXY='' @ [NUL]"

definition X509_USER_PROXY_LEN :: nat where
  "X509_USER_PROXY_LEN = strlen (tl X509_USER_PROXY) + 1"

text \<open>
  The \<open>while (1)\<close> loop of \<open>GetProxyFileFromEnv\<close>. The arguments are the loop's
  variables: the stream \<open>fp\<close>, the byte \<open>c\<close> under inspection (\<open>None\<close> is \<open>EOF\<close>),
  \<open>idx\<close>, \<open>key_idx\<close> and the caller's buffer \<open>path\<close>. The result is \<open>set_env\<close>,
  \<open>idx\<close> and the buffer when the loop is left.
\<close>

function scan_loop :: "nat \<Rightarrow> FILE \<Rightarrow> char option \<Rightarrow> nat \<Rightarrow> nat \<Rightarrow> string \<Rightarrow> bool \<times> nat \<times> string" where
  "scan_loop path_len fp c idx key_idx path =
     (case c of
        None \<Rightarrow> (False, idx, path)
      | Some ch \<Rightarrow>
          if key_idx = X509_USER_PROXY_LEN then
            if idx \<ge> path_len - 1 then (False, idx, path)
            else if ch = NUL then (True, idx, path)
            else scan_loop path_len (snd (fgetc fp)) (fst (fgetc fp)) (idx + 1) key_idx (path[idx := ch])
          else if X509_USER_PROXY ! key_idx \<noteq> ch then
            scan_loop path_len (snd (fgetc fp)) (fst (fgetc fp)) idx 0 path
          else
            scan_loop path_len (snd (fgetc fp)) (fst (fgetc fp)) idx (key_idx + 1) path)"
  by pat_completeness auto
termination
  by (relation "measure (\<lambda>(path_len, fp, c, idx, key_idx, path).
        length (readable fp) - pos fp + (case c of None \<Rightarrow> 0 | Some _ \<Rightarrow> 1))")
     (auto simp: fgetc_def readable_def split: option.splits)

declare scan_loop.simps [simp del]

section \<open>The process and its host\<close>

text \<open>
  \<open>pid_t\<close> is a signed, \<open>uid_t\<close> and \<open>gid_t\<close> are unsigned 32-bit integers. A
  directory of the host is named by a number (its inode).
\<close>

type_synonym pid_t = "32 word"
type_synonym uid_t = "32 word"
type_synonym gid_t = "32 word"
type_synonym dir = nat

text \<open>
  What the code reads and changes of its own process: the real, effective and saved user
  and group ids, the root directory and the working directory.
\<close>

record proc =
  ruid :: uid_t
  euid :: uid_t
  suid :: uid_t
  rgid :: gid_t
  egid :: gid_t
  sgid :: gid_t
  root :: dir
  cwd :: dir

text \<open>
  The host decides what the code cannot: whether a call on a directory is let through in
  the state the process is in (\<open>permits\<close>), which directory a path other than \<open>/\<close> and
  \<open>.\<close> leads to (\<open>dir_at\<close>), and which file \<open>fopen(path, "r")\<close> opens, if any, for
  a process in that state (\<open>file_at\<close>: it sees the ids, the root and the working
  directory).
\<close>

datatype call = Open string | Chdir string | Chroot string | Fchdir dir

record host =
  permits :: "proc \<Rightarrow> call \<Rightarrow> bool"
  dir_at :: "proc \<Rightarrow> string \<Rightarrow> dir"
  file_at :: "proc \<Rightarrow> string \<Rightarrow> FILE option"

definition geteuid :: "proc \<Rightarrow> uid_t" where
  "geteuid p = euid p"

definition getegid :: "proc \<Rightarrow> gid_t" where
  "getegid p = egid p"

text \<open>
  \<open>seteuid\<close> and \<open>setegid\<close> by the rule of the kernel: a process with effective
  user id 0 may set any id, any other process one of its real, effective and saved ids.
  The return value is 0 or -1.
\<close>

definition seteuid :: "uid_t \<Rightarrow> proc \<Rightarrow> int \<times> proc" where
  "seteuid u p =
     (if euid p = 0 \<or> u = ruid p \<or> u = euid p \<or> u = suid p
      then (0, p\<lparr>euid := u\<rparr>) else (- 1, p))"

definition setegid :: "gid_t \<Rightarrow> proc \<Rightarrow> int \<times> proc" where
  "setegid g p =
     (if euid p = 0 \<or> g = rgid p \<or> g = egid p \<or> g = sgid p
      then (0, p\<lparr>egid := g\<rparr>) else (- 1, p))"

definition resolve :: "host \<Rightarrow> proc \<Rightarrow> string \<Rightarrow> dir" where
  "resolve H p path =
     (if path = ''/'' then root p else if path = ''.'' then cwd p else dir_at H p path)"

text \<open>\<open>open(path, O_RDONLY)\<close> on a directory: the descriptor, \<open>None\<close> for -1.\<close>

definition open_dir :: "host \<Rightarrow> string \<Rightarrow> proc \<Rightarrow> dir option" where
  "open_dir H path p = (if permits H p (Open path) then Some (resolve H p path) else None)"

definition chdir :: "host \<Rightarrow> string \<Rightarrow> proc \<Rightarrow> int \<times> proc" where
  "chdir H path p =
     (if permits H p (Chdir path) then (0, p\<lparr>cwd := resolve H p path\<rparr>) else (- 1, p))"

definition chroot :: "host \<Rightarrow> string \<Rightarrow> proc \<Rightarrow> int \<times> proc" where
  "chroot H path p =
     (if permits H p (Chroot path) then (0, p\<lparr>root := resolve H p path\<rparr>) else (- 1, p))"

definition fchdir :: "host \<Rightarrow> dir option \<Rightarrow> proc \<Rightarrow> int \<times> proc" where
  "fchdir H fd p =
     (case fd of
        None \<Rightarrow> (- 1, p)
      | Some d \<Rightarrow> if permits H p (Fchdir d) then (0, p\<lparr>cwd := d\<rparr>) else (- 1, p))"

text \<open>\<open>fopen(path, "r")\<close>: the stream starts at offset 0; \<open>None\<close> is \<open>NULL\<close>.\<close>

definition fopen :: "host \<Rightarrow> string \<Rightarrow> proc \<Rightarrow> FILE option" where
  "fopen H path p = map_option rewind (file_at H p path)"

text \<open>A call returns to its caller, or the process is terminated (\<open>abort\<close>, \<open>assert\<close>).\<close>

datatype 'a outcome = Returned 'a | Aborted

text \<open>
  \<open>PATH_MAX\<close> comes from the system's \<open><climits>\<close>; on Linux it is 4096. A local
  array declared without an initialiser holds indeterminate bytes; the code writes every
  byte of such an array before it reads it, and the model starts them as NUL.
\<close>

definition PATH_MAX :: nat where
  "PATH_MAX = 4096"

definition uninit :: "nat \<Rightarrow> string" where
  "uninit n = replicate n NUL"

section \<open>GetProxyFileFromEnv\<close>

text \<open>
  The result is the return value, the caller's buffer and the process. \<open>pid\<close> is
  printed as the signed integer it is. \<open>olduid\<close> is an \<open>int\<close> in the source; the
  conversion from \<open>uid_t\<close> and back gives the same 32 bits. The log calls and \<open>errno\<close>
  are left out.
\<close>

definition GetProxyFileFromEnv ::
    "host \<Rightarrow> pid_t \<Rightarrow> nat \<Rightarrow> string \<Rightarrow> proc \<Rightarrow> (bool \<times> string \<times> proc) outcome" where
  "GetProxyFileFromEnv H pid path_len path p =
     (if \<not> path_len > 0 then Aborted
      else
        let (path, n) = snprintf path path_len (''/proc/'' @ fmt_d (sint pid) @ ''/environ'')
        in if n \<ge> int path_len then Returned (False, path, p)
           else
             let olduid = geteuid p;
                 p = snd (seteuid 0 p)
             in case fopen H (cstring path) p of
                  None \<Rightarrow> Returned (False, path, snd (seteuid olduid p))
                | Some fp \<Rightarrow>
                    let (set_env, idx, path) = scan_loop path_len fp (Some NUL) 0 0 path;
                        p = snd (seteuid olduid p);
                        path = (if set_env then path[idx := NUL] else path)
                    in Returned (set_env, path, p))"

section \<open>GetProxyFileInternal\<close>

text \<open>
  The function in three parts. First the last one, from \<open>int olduid = geteuid()\<close> to
  the final \<open>return fp\<close>, with the C strings of the two arrays \<open>container_cwd\<close> and
  \<open>container_path\<close> and the C string \<open>path\<close> that the first part has settled on.
  The three reversal calls are joined by \<open>||\<close>: a later one is made only when the
  earlier ones have succeeded.
\<close>

definition container_steps ::
    "host \<Rightarrow> string \<Rightarrow> string \<Rightarrow> uid_t \<Rightarrow> gid_t \<Rightarrow> string \<Rightarrow> proc \<Rightarrow> (FILE option \<times> proc) outcome" where
  "container_steps H container_cwd container_path uid gid path p =
     (let olduid = geteuid p;
          oldgid = getegid p;
          p = snd (seteuid 0 p);
          fd = open_dir H ''/'' p;
          fd2 = open_dir H ''.'' p
      in if fd = None \<or> fd2 = None then Returned (None, snd (seteuid olduid p))
      else
      let (r, p) = chdir H container_cwd p;
          can_chroot = (r \<noteq> - 1);
          (r, p) = (if can_chroot then chroot H container_path p else (0, p))
      in if can_chroot \<and> r = - 1 then
           (let (r, p) = fchdir H fd p
            in if r = - 1 then Aborted
               else Returned (None, snd (seteuid olduid p)))
      else
      let p = snd (setegid gid p);
          p = snd (seteuid uid p);
          fp = fopen H path p;
          p = snd (seteuid 0 p);
          (failed, p) =
            (if can_chroot then
               (let (r, p) = fchdir H fd p in
                if r = - 1 then (True, p)
                else let (r, p) = chroot H ''.'' p in
                if r = - 1 then (True, p)
                else let (r, p) = fchdir H fd2 p in (r = - 1, p))
             else (False, p))
      in if failed then Aborted
      else
      let p = snd (setegid oldgid p);
          p = snd (seteuid olduid p)
      in Returned (fp, p))"

text \<open>
  The middle part: the two arrays \<open>container_path\<close> and \<open>container_cwd\<close> are filled,
  and the last part follows. \<open>pid\<close> is printed as the signed integer it is.
\<close>

definition open_in_container ::
    "host \<Rightarrow> pid_t \<Rightarrow> uid_t \<Rightarrow> gid_t \<Rightarrow> string \<Rightarrow> proc \<Rightarrow> (FILE option \<times> proc) outcome" where
  "open_in_container H pid uid gid path p =
     (let (container_path, n) =
            snprintf (uninit PATH_MAX) PATH_MAX (''/proc/'' @ fmt_d (sint pid) @ ''/root'')
      in if n \<ge> int PATH_MAX then Returned (None, p)
      else
      let (container_cwd, n) =
            snprintf (uninit PATH_MAX) PATH_MAX (''/proc/'' @ fmt_d (sint pid) @ ''/cwd'')
      in if n \<ge> int PATH_MAX then Returned (None, p)
      else container_steps H (cstring container_cwd) (cstring container_path) uid gid path p)"

text \<open>
  The first part, and with it the whole function: the scan of the environment, the
  fallback when it returns false, and the two parts above. \<open>uid\<close> is a \<open>uid_t\<close> and
  is printed with \<open>%d\<close>: the conversion reads its 32 bits as a signed integer.
\<close>

definition GetProxyFileInternal ::
    "host \<Rightarrow> pid_t \<Rightarrow> uid_t \<Rightarrow> gid_t \<Rightarrow> proc \<Rightarrow> (FILE option \<times> proc) outcome" where
  "GetProxyFileInternal H pid uid gid p =
     (case GetProxyFileFromEnv H pid PATH_MAX (uninit PATH_MAX) p of
        Aborted \<Rightarrow> Aborted
      | Returned (found, path, p) \<Rightarrow>
          if \<not> found then
            (let (path, n) = snprintf path PATH_MAX (''/tmp/x509up_u'' @ fmt_d (sint uid))
             in if n \<ge> int PATH_MAX then Returned (None, p)
                else open_in_container H pid uid gid (cstring path) p)
          else open_in_container H pid uid gid (cstring path) p)"

section \<open>GetX509Proxy\<close>

text \<open>
  Modelled from the spec: the declaration of \<open>AuthzRequest\<close> (\<open>x509_helper_req.h\<close>) is
  not among the sources. The spec's lookup request holds a process id, a target user id,
  a target group id and a label for diagnostics; the function reads the first three, as
  \<open>authz_req.pid\<close>, \<open>authz_req.uid\<close> and \<open>authz_req.gid\<close>, and passes them on as a
  \<open>pid_t\<close>, a \<open>uid_t\<close> and a \<open>gid_t\<close>.
\<close>

record AuthzRequest =
  req_pid :: pid_t
  req_uid :: uid_t
  req_gid :: gid_t

definition kBufSize :: nat where
  "kBufSize = 1024"

text \<open>The \<open>do ... while (nbytes == kBufSize)\<close> loop; \<open>nbytes\<close> is the length of \<open>buf\<close>.\<close>

function read_loop :: "FILE \<Rightarrow> string \<Rightarrow> string \<times> FILE" where
  "read_loop fproxy proxy =
     (let (buf, fproxy') = fread kBufSize fproxy;
          nbytes = length buf;
          proxy' = (if nbytes > 0 then proxy @ buf else proxy)
      in if nbytes = kBufSize then read_loop fproxy' proxy' else (proxy', fproxy'))"
  by pat_completeness auto
termination
  by (relation "measure (\<lambda>(fproxy, proxy). length (readable fproxy) - pos fproxy)")
     (auto simp: fread_def kBufSize_def readable_def Let_def split: option.splits)

declare read_loop.simps [simp del]

text \<open>The result is the returned stream, the caller's string \<open>proxy\<close> and the process.\<close>

definition GetX509Proxy ::
    "host \<Rightarrow> AuthzRequest \<Rightarrow> string \<Rightarrow> proc \<Rightarrow> (FILE option \<times> string \<times> proc) outcome" where
  "GetX509Proxy H authz_req proxy p =
     (case GetProxyFileInternal H (req_pid authz_req) (req_uid authz_req) (req_gid authz_req) p of
        Aborted \<Rightarrow> Aborted
      | Returned (None, p) \<Rightarrow> Returned (None, proxy, p)
      | Returned (Some fproxy, p) \<Rightarrow>
          let (proxy, fproxy) = read_loop fproxy [];
              fproxy = rewind fproxy
          in Returned (Some fproxy, proxy, p))"

section \<open>Notions for the statements and the proofs\<close>

subsection \<open>The scan, on lists\<close>

text \<open>
  The text of the key without the leading NUL of the array \<open>X509_USER_PROXY\<close>.
\<close>

definition env_key :: string where
  "env_key = ''X509_USER_PROXY=''"

text \<open>
  The loop of \<open>GetProxyFileFromEnv\<close> again, on the list of the bytes that it has yet to
  inspect (the byte \<open>c\<close> first, then what \<open>fgetc\<close> will deliver; the empty list is
  \<open>c == EOF\<close>): \<open>scan_list\<close> with the buffer as the loop has it, \<open>scan_str\<close> with
  only the bytes stored so far, \<open>path[0..idx)\<close>, and with the C string that the function
  leaves in the buffer as its result. \<open>scan_loop_list\<close> and \<open>scan_list_str\<close> below
  prove that the three agree.
\<close>

fun scan_list :: "nat \<Rightarrow> string \<Rightarrow> nat \<Rightarrow> nat \<Rightarrow> string \<Rightarrow> bool \<times> nat \<times> string" where
  "scan_list n [] idx k path = (False, idx, path)"
| "scan_list n (ch # cs) idx k path =
     (if k = X509_USER_PROXY_LEN then
        if idx \<ge> n - 1 then (False, idx, path)
        else if ch = NUL then (True, idx, path)
        else scan_list n cs (idx + 1) k (path[idx := ch])
      else if X509_USER_PROXY ! k \<noteq> ch then scan_list n cs idx 0 path
      else scan_list n cs idx (k + 1) path)"

fun scan_str :: "nat \<Rightarrow> string \<Rightarrow> nat \<Rightarrow> string \<Rightarrow> string option" where
  "scan_str n [] k acc = None"
| "scan_str n (ch # cs) k acc =
     (if k = X509_USER_PROXY_LEN then
        if length acc \<ge> n - 1 then None
        else if ch = NUL then Some acc
        else scan_str n cs k (acc @ [ch])
      else if X509_USER_PROXY ! k \<noteq> ch then scan_str n cs 0 acc
      else scan_str n cs (k + 1) acc)"

definition pending :: "char option \<Rightarrow> FILE \<Rightarrow> string" where
  "pending c fp = (case c of None \<Rightarrow> [] | Some ch \<Rightarrow> ch # drop (pos fp) (readable fp))"

subsection \<open>Environment records\<close>

text \<open>
  The record of a list of entries: each entry followed by a NUL. And the entries of a
  record: the runs of bytes that end with a NUL (bytes behind the last NUL are no entry).
\<close>

definition env_record :: "string list \<Rightarrow> string" where
  "env_record es = concat (map (\<lambda>e. e @ [NUL]) es)"

fun split_nul :: "string \<Rightarrow> string \<Rightarrow> string list" where
  "split_nul cur [] = []"
| "split_nul cur (c # cs) =
     (if c = NUL then cur # split_nul [] cs else split_nul (cur @ [c]) cs)"

definition env_entries :: "string \<Rightarrow> string list" where
  "env_entries bs = split_nul [] bs"

text \<open>
  The lookup as the specification words it, for comparison with the scan of the code:
  the record is split on \<open>NUL\<close> into its entries, the first entry that begins with
  \<open>X509_USER_PROXY=\<close> is taken, and its value is the result when it fits the buffer
  (with the bound of the code: the value and its terminator in less than \<open>n\<close> bytes).
\<close>

definition tokenizer_lookup :: "nat \<Rightarrow> string \<Rightarrow> string option" where
  "tokenizer_lookup n bs =
     (case find (prefix env_key) (env_entries bs) of
        None \<Rightarrow> None
      | Some e \<Rightarrow>
          let v = drop (length env_key) e
          in if length v + 1 < n then Some v else None)"

subsection \<open>What the callers see\<close>

text \<open>The C string that \<open>GetProxyFileFromEnv\<close> has left in the buffer when it returns true.\<close>

definition found_path :: "(bool \<times> string \<times> proc) outcome \<Rightarrow> string option" where
  "found_path r = (case r of Returned (True, path, p) \<Rightarrow> Some (cstring path) | _ \<Rightarrow> None)"

text \<open>The four texts that the code formats.\<close>

definition environ_name :: "pid_t \<Rightarrow> string" where
  "environ_name pid = ''/proc/'' @ fmt_d (sint pid) @ ''/environ''"

definition root_name :: "pid_t \<Rightarrow> string" where
  "root_name pid = ''/proc/'' @ fmt_d (sint pid) @ ''/root''"

definition cwd_name :: "pid_t \<Rightarrow> string" where
  "cwd_name pid = ''/proc/'' @ fmt_d (sint pid) @ ''/cwd''"

definition fallback_name :: "uid_t \<Rightarrow> string" where
  "fallback_name uid = ''/tmp/x509up_u'' @ fmt_d (sint uid)"

text \<open>
  The value that the scan finds in the environment record of \<open>pid\<close>, and the path that
  \<open>GetProxyFileInternal\<close> goes on with (the argument of its \<open>fopen\<close>).
\<close>

definition env_lookup :: "host \<Rightarrow> pid_t \<Rightarrow> nat \<Rightarrow> proc \<Rightarrow> string option" where
  "env_lookup H pid n p =
     (case file_at H (snd (seteuid 0 p)) (environ_name pid) of
        None \<Rightarrow> None
      | Some fp \<Rightarrow> scan_str n (NUL # readable fp) 0 [])"

definition candidate_path :: "host \<Rightarrow> pid_t \<Rightarrow> uid_t \<Rightarrow> proc \<Rightarrow> string" where
  "candidate_path H pid uid p =
     (case env_lookup H pid PATH_MAX p of Some v \<Rightarrow> v | None \<Rightarrow> fallback_name uid)"

subsection \<open>Concrete processes and hosts\<close>

text \<open>
  The superuser and a plain user, both with root directory 1 and working directory 2; a
  file without read errors; a host on which \<open>/proc/42/root\<close> is directory 11 and every
  other path directory 12, and whose files are the listed ones, for every process; the
  rule that \<open>chroot\<close> is for the superuser and every other directory call for everyone.
\<close>

definition proc_root :: proc where
  "proc_root = \<lparr>ruid = 0, euid = 0, suid = 0, rgid = 0, egid = 0, sgid = 0, root = 1, cwd = 2\<rparr>"

definition proc_user :: proc where
  "proc_user = \<lparr>ruid = 1000, euid = 1000, suid = 1000, rgid = 1000, egid = 1000, sgid = 1000,
     root = 1, cwd = 2\<rparr>"

definition plain_file :: "string \<Rightarrow> FILE" where
  "plain_file bs = \<lparr>bytes = bs, eio = None, pos = 0\<rparr>"

definition chroot_needs_root :: "proc \<Rightarrow> call \<Rightarrow> bool" where
  "chroot_needs_root q c = (case c of Chroot path \<Rightarrow> euid q = 0 | _ \<Rightarrow> True)"

definition test_host :: "(proc \<Rightarrow> call \<Rightarrow> bool) \<Rightarrow> (string \<times> FILE) list \<Rightarrow> host" where
  "test_host allow files =
     \<lparr>permits = allow,
      dir_at = (\<lambda>q path. if path = ''/proc/42/root'' then 11 else 12),
      file_at = (\<lambda>q path. map_of files path)\<rparr>"

definition environ_host :: "string \<Rightarrow> host" where
  "environ_host bs = test_host chroot_needs_root [(''/proc/42/environ'', plain_file bs)]"


definition c5_record :: string where
  "c5_record = env_record [''X'', env_key @ replicate 5000 (CHR ''p''), env_key @ ''/b'']"

definition c3_host :: host where
  "c3_host = test_host chroot_needs_root
     [(''/proc/42/environ'', plain_file (env_record [env_key @ ''/home/alice/.proxy''])),
      (''/home/alice/.proxy'', plain_file ''CERT'')]"

text \<open>A host that lets every directory call through but the \<open>chroot\<close> back.\<close>

definition no_way_back :: "proc \<Rightarrow> call \<Rightarrow> bool" where
  "no_way_back q c = (c \<noteq> Chroot ''.'')"

definition req_1000 :: AuthzRequest where
  "req_1000 = \<lparr>req_pid = 42, req_uid = 1000, req_gid = 1000\<rparr>"

definition tmp_host :: "FILE \<Rightarrow> host" where
  "tmp_host f = test_host chroot_needs_root [(''/tmp/x509up_u1000'', f)]"

subsection \<open>The change of root and its reversal\<close>

text \<open>
  \<open>root_changed\<close>: both directories are opened, and \<open>chdir\<close> and \<open>chroot\<close> into the
  container are let through, each in the state in which the code makes the call.
  \<open>in_container\<close> is the process behind them, \<open>at_reversal\<close> the process when the
  reversal begins (behind \<open>setegid(gid)\<close>, \<open>seteuid(uid)\<close>, \<open>fopen\<close> and
  \<open>seteuid(0)\<close>), and \<open>reversal_fails\<close> says that one of \<open>fchdir(fd)\<close>,
  \<open>chroot(".")\<close> and \<open>fchdir(fd2)\<close> is refused in the state in which it is made,
  for a process \<open>q\<close> at the reversal and the process \<open>p\<close> of the call.
  \<open>chroot_refused\<close>: \<open>chdir\<close> is let through and \<open>chroot\<close> is not;
  \<open>chdir_undo_fails\<close>: the \<open>fchdir(fd)\<close> that the code then makes is refused.
\<close>

definition in_container :: "host \<Rightarrow> pid_t \<Rightarrow> proc \<Rightarrow> proc" where
  "in_container H pid p =
     (let q = snd (seteuid 0 p);
          q = q\<lparr>cwd := dir_at H q (cwd_name pid)\<rparr>
      in q\<lparr>root := dir_at H q (root_name pid)\<rparr>)"

definition root_changed :: "host \<Rightarrow> pid_t \<Rightarrow> proc \<Rightarrow> bool" where
  "root_changed H pid p =
     (let q = snd (seteuid 0 p)
      in permits H q (Open ''/'') \<and> permits H q (Open ''.'') \<and> permits H q (Chdir (cwd_name pid))
         \<and> permits H (q\<lparr>cwd := dir_at H q (cwd_name pid)\<rparr>) (Chroot (root_name pid)))"

definition at_reversal :: "host \<Rightarrow> pid_t \<Rightarrow> uid_t \<Rightarrow> gid_t \<Rightarrow> proc \<Rightarrow> proc" where
  "at_reversal H pid uid gid p =
     snd (seteuid 0 (snd (seteuid uid (snd (setegid gid (in_container H pid p))))))"

definition reversal_fails :: "host \<Rightarrow> proc \<Rightarrow> proc \<Rightarrow> bool" where
  "reversal_fails H p q =
     (\<not> permits H q (Fchdir (root p))
      \<or> \<not> permits H (q\<lparr>cwd := root p\<rparr>) (Chroot ''.'')
      \<or> \<not> permits H (q\<lparr>cwd := root p, root := root p\<rparr>) (Fchdir (cwd p)))"

definition chroot_refused :: "host \<Rightarrow> pid_t \<Rightarrow> proc \<Rightarrow> bool" where
  "chroot_refused H pid p =
     (let q = snd (seteuid 0 p)
      in permits H q (Open ''/'') \<and> permits H q (Open ''.'') \<and> permits H q (Chdir (cwd_name pid))
         \<and> \<not> permits H (q\<lparr>cwd := dir_at H q (cwd_name pid)\<rparr>) (Chroot (root_name pid)))"

definition chdir_undo_fails :: "host \<Rightarrow> pid_t \<Rightarrow> proc \<Rightarrow> bool" where
  "chdir_undo_fails H pid p =
     (let q = snd (seteuid 0 p)
      in \<not> permits H (q\<lparr>cwd := dir_at H q (cwd_name pid)\<rparr>) (Fchdir (root p)))"

text \<open>A host that refuses \<open>chroot\<close> and \<open>fchdir\<close> to everyone.\<close>

definition no_chroot_no_fchdir :: "proc \<Rightarrow> call \<Rightarrow> bool" where
  "no_chroot_no_fchdir q c = (case c of Chroot path \<Rightarrow> False | Fchdir d \<Rightarrow> False | _ \<Rightarrow> True)"

text \<open>
  The ids of a process as \<open>exec\<close> and the \<open>set*id\<close> calls of a process without
  privilege leave them: the effective id is the real or the saved one.
\<close>

definition ids_regular :: "proc \<Rightarrow> bool" where
  "ids_regular p =
     ((euid p = ruid p \<or> euid p = suid p) \<and> (egid p = rgid p \<or> egid p = sgid p))"

section \<open>Lemmas\<close>

subsection \<open>The key\<close>

lemma X509_USER_PROXY_LEN_eq: "X509_USER_PROXY_LEN = 17"
  by (simp add: X509_USER_PROXY_LEN_def X509_USER_PROXY_def strlen_def cstring_def NUL_def)

lemma X509_USER_PROXY_eq: "X509_USER_PROXY = NUL # env_key @ [NUL]"
  by (simp add: X509_USER_PROXY_def env_key_def)

lemma key_length: "length (NUL # env_key) = 17"
  by (simp add: env_key_def)

lemma key_nth: "k < 17 \<Longrightarrow> X509_USER_PROXY ! k = (NUL # env_key) ! k"
  using nth_append [of "NUL # env_key" "[NUL]" k] key_length
  by (simp add: X509_USER_PROXY_eq)

lemma key_nth0: "X509_USER_PROXY ! 0 = NUL"
  by (simp add: X509_USER_PROXY_def)

subsection \<open>The loop on the stream and the scan on lists\<close>

lemma readable_pos [simp]: "readable (fp\<lparr>pos := k\<rparr>) = readable fp"
  by (simp add: readable_def split: option.splits)

lemma pending_fgetc: "pending (fst (fgetc fp)) (snd (fgetc fp)) = drop (pos fp) (readable fp)"
  by (simp add: pending_def fgetc_def Cons_nth_drop_Suc)

text \<open>
  The loop on the stream is the scan on the list of the bytes it has yet to inspect, and
  the scan with the buffer is the scan with the bytes stored so far: the buffer keeps its
  length, and \<open>idx\<close> stays below \<open>path_len - 1\<close> when the scan succeeds.
\<close>

lemma scan_loop_list: "scan_loop n fp c idx k path = scan_list n (pending c fp) idx k path"
proof (induction n fp c idx k path rule: scan_loop.induct)
  case (1 n fp c idx k path)
  show ?case
  proof (cases c)
    case None
    then show ?thesis by (simp add: scan_loop.simps pending_def)
  next
    case (Some ch)
    then have p: "pending c fp = ch # pending (fst (fgetc fp)) (snd (fgetc fp))"
      by (simp add: pending_fgetc) (simp add: pending_def)
    show ?thesis
      using Some "1.IH" unfolding p
      by (subst scan_loop.simps) simp
  qed
qed

lemma scan_list_str:
  "scan_list n cs idx k path = (b, i, path') \<Longrightarrow> n \<le> length path \<Longrightarrow> idx \<le> length path \<Longrightarrow>
   length path' = length path \<and> (b \<longrightarrow> i + 1 < n) \<and>
   scan_str n cs k (take idx path) = (if b then Some (take i path') else None)"
proof (induction cs arbitrary: idx k path)
  case Nil
  then show ?case by auto
next
  case (Cons ch cs)
  show ?case
  proof (cases "k = X509_USER_PROXY_LEN")
    case k: True
    show ?thesis
    proof (cases "idx \<ge> n - 1")
      case True
      with k Cons.prems show ?thesis by auto
    next
      case idx: False
      show ?thesis
      proof (cases "ch = NUL")
        case True
        with k idx Cons.prems show ?thesis by auto
      next
        case False
        with k idx Cons.prems
        have rec: "scan_list n cs (idx + 1) k (path[idx := ch]) = (b, i, path')"
          by simp
        from idx Cons.prems have lt: "idx < length path" by simp
        then have tk: "take (idx + 1) (path[idx := ch]) = take idx path @ [ch]"
          by (simp add: take_Suc_conv_app_nth)
        from Cons.IH [OF rec] lt Cons.prems(2)
        have "length path' = length path \<and> (b \<longrightarrow> i + 1 < n) \<and>
          scan_str n cs k (take (idx + 1) (path[idx := ch])) = (if b then Some (take i path') else None)"
          by simp
        with k idx False lt show ?thesis
          unfolding tk by simp
      qed
    qed
  next
    case False
    with Cons show ?thesis by (auto split: if_splits)
  qed
qed

subsection \<open>What the scan skips, matches and copies\<close>

text \<open>
  With \<open>key_idx = 0\<close> every byte but a NUL is passed over; a part of the key is matched
  byte by byte; an entry that differs from the key text at a position that both have is
  passed over together with its NUL, and the scan is then at the NUL in front of the
  next entry.
\<close>

lemma skip_plain: "NUL \<notin> set t \<Longrightarrow> scan_str n (t @ rest) 0 acc = scan_str n rest 0 acc"
  by (induction t) (auto simp: X509_USER_PROXY_LEN_eq key_nth0)

lemma match_part:
  "X509_USER_PROXY = a @ m @ b \<Longrightarrow> length a = k \<Longrightarrow> b \<noteq> [] \<Longrightarrow>
   scan_str n (m @ rest) k acc = scan_str n rest (k + length m) acc"
proof (induction m arbitrary: a k)
  case Nil
  then show ?case by simp
next
  case (Cons ch m)
  have len: "length X509_USER_PROXY = 18"
    by (simp add: X509_USER_PROXY_def)
  from arg_cong [OF Cons.prems(1), of length] len
  have "k + Suc (length m) + length b = 18"
    using Cons.prems(2) by simp
  with Cons.prems(3) have k17: "k \<noteq> X509_USER_PROXY_LEN"
    by (cases b) (simp_all add: X509_USER_PROXY_LEN_eq)
  have nth: "X509_USER_PROXY ! k = ch"
    unfolding Cons.prems(1) Cons.prems(2) [symmetric] by simp
  from Cons.prems have "X509_USER_PROXY = (a @ [ch]) @ m @ b" "length (a @ [ch]) = k + 1"
    by simp_all
  from Cons.IH [OF this(1) this(2) Cons.prems(3)]
  show ?case using k17 nth by simp
qed

lemma match_key: "scan_str n (NUL # env_key @ rest) 0 acc = scan_str n rest X509_USER_PROXY_LEN acc"
proof -
  have "0 + length (NUL # env_key) = X509_USER_PROXY_LEN"
    by (simp add: X509_USER_PROXY_LEN_eq env_key_def)
  with match_part [of "[]" "NUL # env_key" "[NUL]" 0 n rest acc]
  show ?thesis by (simp add: X509_USER_PROXY_eq)
qed

lemma skip_entry:
  assumes "NUL \<notin> set e" and "e \<parallel> env_key"
  shows "scan_str n (NUL # e @ NUL # rest) 0 acc = scan_str n (NUL # rest) 0 acc"
proof -
  from parallel_decomp [OF assms(2)] obtain m x t y u
    where xy: "x \<noteq> y" and e: "e = m @ x # t" and key: "env_key = m @ y # u"
    by blast
  have 1: "X509_USER_PROXY = [] @ (NUL # m) @ (y # u @ [NUL])"
    by (simp add: X509_USER_PROXY_eq key)
  have step1: "scan_str n ((NUL # m) @ x # t @ NUL # rest) 0 acc
      = scan_str n (x # t @ NUL # rest) (0 + length (NUL # m)) acc"
    by (rule match_part [OF 1]) simp_all
  have nth: "X509_USER_PROXY ! Suc (length m) = y"
    by (simp add: X509_USER_PROXY_eq key nth_append)
  have "length env_key = 16" by (simp add: env_key_def)
  then have lm: "Suc (length m) \<noteq> X509_USER_PROXY_LEN"
    by (simp add: key X509_USER_PROXY_LEN_eq)
  have step2: "scan_str n (x # t @ NUL # rest) (Suc (length m)) acc
      = scan_str n (t @ NUL # rest) 0 acc"
    using xy nth lm by simp
  from assms(1) have "NUL \<notin> set t" by (simp add: e)
  from skip_plain [OF this] step1 step2 show ?thesis
    by (simp add: e)
qed

lemma skip_entries:
  "\<forall>e \<in> set es. NUL \<notin> set e \<and> e \<parallel> env_key \<Longrightarrow>
   scan_str n (NUL # env_record es @ rest) 0 acc = scan_str n (NUL # rest) 0 acc"
proof (induction es)
  case Nil
  then show ?case by (simp add: env_record_def)
next
  case (Cons e es)
  then have "scan_str n (NUL # e @ NUL # env_record es @ rest) 0 acc
     = scan_str n (NUL # env_record es @ rest) 0 acc"
    by (intro skip_entry) simp_all
  with Cons show ?case by (simp add: env_record_def)
qed

text \<open>
  Behind the key the value is copied up to its NUL when it has fewer than
  \<open>path_len - 1\<close> bytes, and the scan gives up when it has not.
\<close>

lemma copy_value:
  "NUL \<notin> set v \<Longrightarrow> length acc + length v + 1 < n \<Longrightarrow>
   scan_str n (v @ NUL # rest) X509_USER_PROXY_LEN acc = Some (acc @ v)"
  by (induction v arbitrary: acc) auto

lemma value_too_long:
  "NUL \<notin> set v \<Longrightarrow> n - 1 \<le> length acc + length v \<Longrightarrow>
   scan_str n (v @ rest) X509_USER_PROXY_LEN acc = None"
proof (induction v arbitrary: acc)
  case Nil
  then show ?case by (cases rest) simp_all
next
  case (Cons ch v)
  then show ?case by auto
qed

text \<open>
  When the scan succeeds, the bytes in front of it are made of: the rest of the key (or
  any bytes and then the whole key, leading NUL included), the value returned, and a
  NUL. So the value returned stands between the key at an entry boundary and the
  NUL that ends the entry.
\<close>

lemma scan_str_sound:
  "scan_str n cs k acc = Some r \<Longrightarrow> k \<le> 17 \<Longrightarrow>
   \<exists>w v post. cs = w @ v @ NUL # post \<and> NUL \<notin> set v \<and> r = acc @ v \<and> length r + 1 < n
      \<and> (if k = 17 then w = [] else w = drop k (NUL # env_key) \<or> (\<exists>pre. w = pre @ NUL # env_key))"
proof (induction cs arbitrary: k acc)
  case Nil
  then show ?case by simp
next
  case (Cons ch cs)
  show ?case
  proof (cases "k = 17")
    case True
    with Cons.prems have len: "length acc + 1 < n"
      by (auto simp: X509_USER_PROXY_LEN_eq split: if_splits)
    show ?thesis
    proof (cases "ch = NUL")
      case True
      with \<open>k = 17\<close> len Cons.prems have "r = acc"
        by (auto simp: X509_USER_PROXY_LEN_eq split: if_splits)
      with True \<open>k = 17\<close> len show ?thesis
        by (intro exI [of _ "[]"] exI [of _ cs]) simp
    next
      case False
      with \<open>k = 17\<close> len Cons.prems
      have rec: "scan_str n cs 17 (acc @ [ch]) = Some r"
        by (auto simp: X509_USER_PROXY_LEN_eq split: if_splits)
      from Cons.IH [OF rec]
      obtain v post where cs: "cs = v @ NUL # post" and v: "NUL \<notin> set v"
        and r: "r = (acc @ [ch]) @ v" "length r + 1 < n"
        by auto
      with False \<open>k = 17\<close> show ?thesis
        by (intro exI [of _ "[]"] exI [of _ "ch # v"] exI [of _ post]) auto
    qed
  next
    case False
    with Cons.prems(2) have k: "k < 17" by simp
    show ?thesis
    proof (cases "X509_USER_PROXY ! k = ch")
      case True
      with False Cons.prems
      have rec: "scan_str n cs (k + 1) acc = Some r"
        by (simp add: X509_USER_PROXY_LEN_eq)
      from k have k1: "k + 1 \<le> 17" by simp
      from Cons.IH [OF rec k1]
      obtain w v post where cs: "cs = w @ v @ NUL # post" and v: "NUL \<notin> set v"
        and r: "r = acc @ v" "length r + 1 < n"
        and w: "if k + 1 = 17 then w = [] else w = drop (k + 1) (NUL # env_key) \<or> (\<exists>pre. w = pre @ NUL # env_key)"
        by blast
      from k True have dk: "drop k (NUL # env_key) = ch # drop (k + 1) (NUL # env_key)"
        using Cons_nth_drop_Suc [of k "NUL # env_key"] key_length key_nth [of k]
        by simp
      have "ch # w = drop k (NUL # env_key) \<or> (\<exists>pre. ch # w = pre @ NUL # env_key)"
      proof (cases "k + 1 = 17")
        case True
        with w dk key_length show ?thesis by simp
      next
        case False
        with w consider "w = drop (k + 1) (NUL # env_key)" | pre where "w = pre @ NUL # env_key"
          by auto
        then show ?thesis
        proof cases
          case 1
          with dk show ?thesis by simp
        next
          case 2
          then have "ch # w = (ch # pre) @ NUL # env_key" by simp
          then show ?thesis by blast
        qed
      qed
      with cs v r False show ?thesis
        by (intro exI [of _ "ch # w"] exI [of _ v] exI [of _ post]) simp
    next
      case neq: False
      with False Cons.prems
      have rec: "scan_str n cs 0 acc = Some r"
        by (simp add: X509_USER_PROXY_LEN_eq)
      from Cons.IH [OF rec]
      have "\<exists>w v post. cs = w @ v @ NUL # post \<and> NUL \<notin> set v \<and> r = acc @ v \<and> length r + 1 < n
          \<and> (w = NUL # env_key \<or> (\<exists>pre. w = pre @ NUL # env_key))"
        by simp
      then obtain w v post where cs: "cs = w @ v @ NUL # post" and v: "NUL \<notin> set v"
        and r: "r = acc @ v" "length r + 1 < n"
        and w: "w = NUL # env_key \<or> (\<exists>pre. w = pre @ NUL # env_key)"
        by blast
      from w obtain pre where "ch # w = pre @ NUL # env_key"
        by (metis append_Cons append_Nil)
      with cs v r False show ?thesis
        by (intro exI [of _ "ch # w"] exI [of _ v] exI [of _ post]) auto
    qed
  qed
qed

lemma scan_str_entry:
  assumes "scan_str n (NUL # bs) 0 [] = Some v"
  shows "NUL \<notin> set v \<and> length v + 1 < n \<and>
     (\<exists>pre post. NUL # bs = pre @ NUL # (env_key @ v) @ NUL # post)"
proof -
  from scan_str_sound [OF assms]
  have "\<exists>w u post. NUL # bs = w @ u @ NUL # post \<and> NUL \<notin> set u \<and> v = u \<and> length v + 1 < n
      \<and> (w = NUL # env_key \<or> (\<exists>pre. w = pre @ NUL # env_key))"
    by simp
  then obtain w post where "NUL # bs = w @ v @ NUL # post" "NUL \<notin> set v" "length v + 1 < n"
    and "w = NUL # env_key \<or> (\<exists>pre. w = pre @ NUL # env_key)"
    by blast
  then show ?thesis by (metis append.assoc append_Cons append_Nil)
qed

subsection \<open>Entries of a record\<close>

lemma split_nul_entry:
  "NUL \<notin> set e \<Longrightarrow> split_nul cur (e @ NUL # post) = (cur @ e) # split_nul [] post"
  by (induction e arbitrary: cur) auto

lemma split_nul_later:
  "set (split_nul [] post) \<subseteq> set (split_nul cur (pre @ NUL # post))"
  by (induction pre arbitrary: cur) auto

lemma env_entries_member:
  assumes "NUL # bs = pre @ NUL # e @ NUL # post" and "NUL \<notin> set e"
  shows "e \<in> set (env_entries bs)"
proof (cases pre)
  case Nil
  with assms show ?thesis
    by (simp add: env_entries_def split_nul_entry)
next
  case (Cons x pre')
  with assms have "bs = pre' @ NUL # e @ NUL # post" by simp
  moreover have "e \<in> set (split_nul [] (e @ NUL # post))"
    using assms(2) by (simp add: split_nul_entry)
  ultimately show ?thesis
    using split_nul_later [of "e @ NUL # post" "[]" pre'] by (auto simp: env_entries_def)
qed

lemma env_key_no_NUL: "NUL \<notin> set env_key"
  by (simp add: env_key_def NUL_def)

text \<open>
  A value that the scan returns is the whole value of an entry of the record whose key
  is \<open>X509_USER_PROXY\<close>; it has no NUL and fewer than \<open>path_len - 1\<close> bytes.
\<close>

lemma scan_str_in_entries:
  assumes "scan_str n (NUL # bs) 0 [] = Some v"
  shows "env_key @ v \<in> set (env_entries bs) \<and> NUL \<notin> set v \<and> length v + 1 < n"
proof -
  from scan_str_entry [OF assms] obtain pre post
    where "NUL \<notin> set v" "length v + 1 < n" "NUL # bs = pre @ NUL # (env_key @ v) @ NUL # post"
    by blast
  with env_entries_member [of bs pre "env_key @ v" post] env_key_no_NUL
  show ?thesis by simp
qed

declare scan_list.simps [simp del] scan_str.simps [simp del]

subsection \<open>Formatted numbers\<close>

lemma string_of_nat_digits: "set (string_of_nat n) \<subseteq> set ''0123456789''"
proof (induction n rule: string_of_nat.induct)
  case (1 n)
  have d: "k < 10 \<Longrightarrow> ''0123456789'' ! k \<in> set ''0123456789''" for k
    by (rule nth_mem) simp
  show ?case
  proof (cases "n < 10")
    case True
    with d [of n] show ?thesis by (subst string_of_nat.simps) simp
  next
    case False
    with 1 d [of "n mod 10"] show ?thesis by (subst string_of_nat.simps) simp
  qed
qed

lemma string_of_nat_no_NUL: "NUL \<notin> set (string_of_nat n)"
  using string_of_nat_digits [of n] by (auto simp: NUL_def)

lemma fmt_d_no_NUL: "NUL \<notin> set (fmt_d i)"
  using string_of_nat_no_NUL by (simp add: fmt_d_def NUL_def)

lemma length_string_of_nat: "n < 10 ^ k \<Longrightarrow> 0 < k \<Longrightarrow> length (string_of_nat n) \<le> k"
proof (induction n arbitrary: k rule: string_of_nat.induct)
  case (1 n)
  show ?case
  proof (cases "n < 10")
    case True
    with 1 show ?thesis by (subst string_of_nat.simps) simp
  next
    case False
    have "2 \<le> k"
    proof (rule ccontr)
      assume "\<not> 2 \<le> k"
      with "1.prems" have "k = 1" by simp
      with "1.prems" False show False by simp
    qed
    then obtain j where k: "k = Suc j" "0 < j"
      by (cases k) auto
    with "1.prems" have "n div 10 < 10 ^ j"
      by (simp add: less_mult_imp_div_less mult.commute)
    with "1.IH" [OF False this] k False show ?thesis
      by (subst string_of_nat.simps) simp
  qed
qed

lemma length_fmt_d: "length (fmt_d (sint (w :: 32 word))) \<le> 11"
proof -
  have r: "- (2 ^ 31) \<le> sint w" "sint w < 2 ^ 31"
    using sint_ge [of w] sint_lt [of w] by simp_all
  show ?thesis
  proof (cases "sint w < 0")
    case True
    with r have "nat (- sint w) < 10 ^ 10" by simp
    from length_string_of_nat [OF this] True show ?thesis
      by (simp add: fmt_d_def)
  next
    case False
    with r have "nat (sint w) < 10 ^ 10" by simp
    from length_string_of_nat [OF this] False show ?thesis
      by (simp add: fmt_d_def)
  qed
qed

subsection \<open>Buffers\<close>

lemma cstring_app_NUL: "NUL \<notin> set s \<Longrightarrow> cstring (s @ NUL # r) = s"
  by (simp add: cstring_def takeWhile_append)

lemma snprintf_fits:
  "length txt < n \<Longrightarrow> snprintf buf n txt = (txt @ NUL # drop (length txt + 1) buf, int (length txt))"
  by (simp add: snprintf_def Let_def)

lemma length_snprintf:
  "length txt < n \<Longrightarrow> n \<le> length buf \<Longrightarrow> length (fst (snprintf buf n txt)) = length buf"
  by (simp add: snprintf_fits)

lemma cstring_snprintf:
  "length txt < n \<Longrightarrow> NUL \<notin> set txt \<Longrightarrow> cstring (fst (snprintf buf n txt)) = txt"
  by (simp add: snprintf_fits cstring_app_NUL)

lemma snprintf_overflow: "n \<le> length txt \<Longrightarrow> int n \<le> snd (snprintf buf n txt)"
  by (simp add: snprintf_def Let_def)

lemma cstring_terminate:
  "i < length buf \<Longrightarrow> NUL \<notin> set (take i buf) \<Longrightarrow> cstring (buf[i := NUL]) = take i buf"
  by (simp add: upd_conv_take_nth_drop cstring_app_NUL)

subsection \<open>Ids and names\<close>

lemma seteuid_restore: "snd (seteuid (geteuid p) (snd (seteuid 0 p))) = p"
  by (auto simp: seteuid_def geteuid_def)

lemma environ_name_no_NUL: "NUL \<notin> set (environ_name pid)"
  using fmt_d_no_NUL by (simp add: environ_name_def NUL_def)

lemma length_environ_name: "length (environ_name pid) \<le> 25"
  using length_fmt_d [of pid] by (simp add: environ_name_def)

subsection \<open>GetProxyFileFromEnv in terms of the scan\<close>

lemma scan_str_no_NUL: "scan_str n (NUL # bs) 0 [] = Some v \<Longrightarrow> NUL \<notin> set v"
  using scan_str_in_entries by blast

text \<open>
  \<open>GetProxyFileFromEnv\<close>, for every buffer of at least \<open>path_len\<close> bytes, whatever
  it holds: the function returns, leaves the process as it was, returns true exactly
  when the scan of the record finds a value, and then leaves that value in the buffer
  as a C string.
\<close>

lemma GetProxyFileFromEnv_overflow:
  "0 < n \<Longrightarrow> n \<le> length (environ_name pid) \<Longrightarrow>
   GetProxyFileFromEnv H pid n path p = Returned (False, fst (snprintf path n (environ_name pid)), p)"
  using snprintf_overflow [of n "environ_name pid" path]
  unfolding GetProxyFileFromEnv_def environ_name_def
  by (auto split: prod.splits)

lemma GetProxyFileFromEnv_result:
  assumes fits: "length (environ_name pid) < n" and buf: "n \<le> length path"
  shows "\<exists>path'. GetProxyFileFromEnv H pid n path p = Returned (env_lookup H pid n p \<noteq> None, path', p)
           \<and> (\<forall>v. env_lookup H pid n p = Some v \<longrightarrow> cstring path' = v)"
proof -
  define path1 where "path1 = fst (snprintf path n (environ_name pid))"
  have cs: "cstring path1 = environ_name pid"
    unfolding path1_def by (rule cstring_snprintf [OF fits environ_name_no_NUL])
  have sn: "snprintf path n (environ_name pid) = (path1, int (length (environ_name pid)))"
    using fits by (simp add: path1_def snprintf_fits)
  have unfold: "GetProxyFileFromEnv H pid n path p =
     (let olduid = geteuid p; q = snd (seteuid 0 p)
      in case fopen H (environ_name pid) q of
           None \<Rightarrow> Returned (False, path1, snd (seteuid olduid q))
         | Some fp \<Rightarrow>
             let (set_env, idx, path') = scan_loop n fp (Some NUL) 0 0 path1;
                 q = snd (seteuid olduid q);
                 path' = (if set_env then path'[idx := NUL] else path')
             in Returned (set_env, path', q))"
    using fits unfolding GetProxyFileFromEnv_def environ_name_def [symmetric]
    by (simp add: sn cs)
  have len1: "length path1 = length path"
    unfolding path1_def by (rule length_snprintf [OF fits buf])
  from fits have n: "0 < n" by simp
  show ?thesis
  proof (cases "file_at H (snd (seteuid 0 p)) (environ_name pid)")
    case None
    then show ?thesis
      by (simp add: unfold fopen_def env_lookup_def seteuid_restore)
  next
    case (Some f)
    obtain b i path' where sl: "scan_list n (NUL # readable f) 0 0 path1 = (b, i, path')"
      by (cases "scan_list n (NUL # readable f) 0 0 path1") auto
    have "pending (Some NUL) (rewind f) = NUL # readable f"
      by (simp add: pending_def rewind_def)
    then have loop: "scan_loop n (rewind f) (Some NUL) 0 0 path1 = (b, i, path')"
      by (simp only: scan_loop_list sl)
    from scan_list_str [OF sl] buf len1
    have str: "length path' = length path" "b \<longrightarrow> i + 1 < n"
      "scan_str n (NUL # readable f) 0 [] = (if b then Some (take i path') else None)"
      by simp_all
    have look: "env_lookup H pid n p = (if b then Some (take i path') else None)"
      by (simp add: env_lookup_def Some str)
    have call: "GetProxyFileFromEnv H pid n path p
        = Returned (b, if b then path'[i := NUL] else path', p)"
      by (simp add: unfold fopen_def Some loop seteuid_restore)
    show ?thesis
    proof (cases b)
      case True
      with str have "NUL \<notin> set (take i path')"
        using scan_str_no_NUL [of n "readable f" "take i path'"] by simp
      moreover from True str buf have "i < length path'" by simp
      ultimately have "cstring (path'[i := NUL]) = take i path'"
        by (intro cstring_terminate)
      with True call look show ?thesis by simp
    next
      case False
      with call look show ?thesis by simp
    qed
  qed
qed

subsection \<open>The steps of GetProxyFileInternal\<close>

lemma uninit_length [simp]: "length (uninit n) = n"
  by (simp add: uninit_def)

lemma root_name_facts: "length (root_name pid) < PATH_MAX" "NUL \<notin> set (root_name pid)"
  using length_fmt_d [of pid] fmt_d_no_NUL [of "sint pid"]
  by (simp_all add: root_name_def PATH_MAX_def NUL_def)

lemma cwd_name_facts: "length (cwd_name pid) < PATH_MAX" "NUL \<notin> set (cwd_name pid)"
  using length_fmt_d [of pid] fmt_d_no_NUL [of "sint pid"]
  by (simp_all add: cwd_name_def PATH_MAX_def NUL_def)

lemma fallback_name_facts: "length (fallback_name uid) < PATH_MAX" "NUL \<notin> set (fallback_name uid)"
  using length_fmt_d [of uid] fmt_d_no_NUL [of "sint uid"]
  by (simp_all add: fallback_name_def PATH_MAX_def NUL_def)

lemma environ_name_fits: "length (environ_name pid) < PATH_MAX"
  using length_environ_name [of pid] by (simp add: PATH_MAX_def)

text \<open>
  No \<open>snprintf\<close> of \<open>GetProxyFileInternal\<close> overflows its array (a 32-bit number has
  at most eleven characters), and \<open>GetProxyFileFromEnv\<close> is not given a length of 0:
  the function is its last part, run on the two names and on the path that the scan or
  the fallback gives.
\<close>

lemma open_in_container_steps:
  "open_in_container H pid uid gid path p
     = container_steps H (cwd_name pid) (root_name pid) uid gid path p"
proof -
  have r: "snprintf (uninit PATH_MAX) PATH_MAX (root_name pid)
      = (root_name pid @ NUL # drop (length (root_name pid) + 1) (uninit PATH_MAX),
         int (length (root_name pid)))"
    by (rule snprintf_fits [OF root_name_facts(1)])
  have c: "snprintf (uninit PATH_MAX) PATH_MAX (cwd_name pid)
      = (cwd_name pid @ NUL # drop (length (cwd_name pid) + 1) (uninit PATH_MAX),
         int (length (cwd_name pid)))"
    by (rule snprintf_fits [OF cwd_name_facts(1)])
  have rc: "cstring (root_name pid @ NUL # r) = root_name pid" for r
    by (rule cstring_app_NUL [OF root_name_facts(2)])
  have cc: "cstring (cwd_name pid @ NUL # r) = cwd_name pid" for r
    by (rule cstring_app_NUL [OF cwd_name_facts(2)])
  show ?thesis
    unfolding open_in_container_def root_name_def [symmetric] cwd_name_def [symmetric] r c
    using root_name_facts(1) [of pid] cwd_name_facts(1) [of pid]
    by (simp add: rc cc)
qed

lemma GetProxyFileInternal_steps:
  "GetProxyFileInternal H pid uid gid p
     = container_steps H (cwd_name pid) (root_name pid) uid gid (candidate_path H pid uid p) p"
proof -
  from GetProxyFileFromEnv_result [OF environ_name_fits, where path = "uninit PATH_MAX" and pid = pid and H = H and p = p]
  obtain path' where call: "GetProxyFileFromEnv H pid PATH_MAX (uninit PATH_MAX) p
        = Returned (env_lookup H pid PATH_MAX p \<noteq> None, path', p)"
    and path': "\<forall>v. env_lookup H pid PATH_MAX p = Some v \<longrightarrow> cstring path' = v"
    by auto
  show ?thesis
  proof (cases "env_lookup H pid PATH_MAX p")
    case None
    have f: "snprintf path' PATH_MAX (fallback_name uid)
      = (fallback_name uid @ NUL # drop (length (fallback_name uid) + 1) path', int (length (fallback_name uid)))"
      by (rule snprintf_fits [OF fallback_name_facts(1)])
    have fc: "cstring (fallback_name uid @ NUL # r) = fallback_name uid" for r
      by (rule cstring_app_NUL [OF fallback_name_facts(2)])
    show ?thesis
      unfolding GetProxyFileInternal_def fallback_name_def [symmetric] call
      using fallback_name_facts(1) [of uid]
      by (simp add: None f fc candidate_path_def open_in_container_steps)
  next
    case (Some v)
    with path' have "cstring path' = v" by simp
    with Some show ?thesis
      unfolding GetProxyFileInternal_def
      by (simp add: call candidate_path_def open_in_container_steps)
  qed
qed

subsection \<open>What the steps leave unchanged\<close>

lemma seteuid_frame [simp]:
  "root (snd (seteuid u p)) = root p" "cwd (snd (seteuid u p)) = cwd p"
  "egid (snd (seteuid u p)) = egid p" "ruid (snd (seteuid u p)) = ruid p"
  "suid (snd (seteuid u p)) = suid p" "rgid (snd (seteuid u p)) = rgid p"
  "sgid (snd (seteuid u p)) = sgid p"
  by (simp_all add: seteuid_def)

lemma setegid_frame [simp]:
  "root (snd (setegid g p)) = root p" "cwd (snd (setegid g p)) = cwd p"
  "euid (snd (setegid g p)) = euid p" "ruid (snd (setegid g p)) = ruid p"
  "suid (snd (setegid g p)) = suid p" "rgid (snd (setegid g p)) = rgid p"
  "sgid (snd (setegid g p)) = sgid p"
  by (simp_all add: setegid_def)

lemma container_steps_root:
  "container_steps H cn rn uid gid path p = Returned (fp, p') \<Longrightarrow> root p' = root p"
  unfolding container_steps_def
  by (auto simp: Let_def chdir_def chroot_def fchdir_def open_dir_def resolve_def
      split: if_splits prod.splits option.splits)

lemma name_not_slash: "cwd_name pid \<noteq> ''/''" "cwd_name pid \<noteq> ''.''" "root_name pid \<noteq> ''/''" "root_name pid \<noteq> ''.''"
  by (simp_all add: cwd_name_def root_name_def)

subsection \<open>The scan as the caller sees it\<close>

lemma found_path_GetProxyFileFromEnv:
  assumes "length (environ_name pid) < n" and "n \<le> length path"
  shows "found_path (GetProxyFileFromEnv H pid n path p) = env_lookup H pid n p"
proof -
  from GetProxyFileFromEnv_result [OF assms, of H p]
  obtain path' where "GetProxyFileFromEnv H pid n path p = Returned (env_lookup H pid n p \<noteq> None, path', p)"
    and "\<forall>v. env_lookup H pid n p = Some v \<longrightarrow> cstring path' = v"
    by blast
  then show ?thesis
    by (cases "env_lookup H pid n p") (simp_all add: found_path_def)
qed

text \<open>
  A path that \<open>GetProxyFileFromEnv\<close> stores is the whole value of an entry of the
  record with the key \<open>X509_USER_PROXY\<close>: the key is matched at an entry boundary
  only, and a value is never cut short.
\<close>

lemma GetProxyFileFromEnv_whole_entry:
  assumes "length (environ_name pid) < n" and "n \<le> length path"
    and "file_at H (snd (seteuid 0 p)) (environ_name pid) = Some fp"
    and "found_path (GetProxyFileFromEnv H pid n path p) = Some v"
  shows "env_key @ v \<in> set (env_entries (readable fp)) \<and> NUL \<notin> set v \<and> length v + 1 < n"
proof -
  from assms have "scan_str n (NUL # readable fp) 0 [] = Some v"
    by (simp add: found_path_GetProxyFileFromEnv env_lookup_def)
  then show ?thesis
    by (rule scan_str_in_entries)
qed

lemma env_entries_record: "\<forall>e\<in>set es. NUL \<notin> set e \<Longrightarrow> env_entries (env_record es) = es"
proof (induction es)
  case Nil
  then show ?case by (simp add: env_entries_def env_record_def)
next
  case (Cons e es)
  then have "split_nul [] (e @ NUL # env_record es) = e # split_nul [] (env_record es)"
    using split_nul_entry [of e "[]" "env_record es"] by simp
  with Cons show ?case by (simp add: env_entries_def env_record_def)
qed

subsection \<open>The scan and the lookup of the specification\<close>

text \<open>
  Every record is the concatenation of its entries, each with its terminator, and of a
  last piece without a \<open>NUL\<close>.
\<close>

lemma split_nul_decomp:
  "NUL \<notin> set cur \<Longrightarrow>
   \<exists>tail. NUL \<notin> set tail \<and> cur @ bs = env_record (split_nul cur bs) @ tail
      \<and> (\<forall>e\<in>set (split_nul cur bs). NUL \<notin> set e)"
proof (induction bs arbitrary: cur)
  case Nil
  then show ?case by (simp add: env_record_def)
next
  case (Cons c cs)
  show ?case
  proof (cases "c = NUL")
    case True
    from Cons.IH [of "[]"] obtain tail where "NUL \<notin> set tail"
      and "cs = env_record (split_nul [] cs) @ tail"
      and "\<forall>e\<in>set (split_nul [] cs). NUL \<notin> set e"
      by auto
    with True Cons.prems show ?thesis
      by (intro exI [where x = tail]) (simp add: env_record_def)
  next
    case False
    with Cons.prems have "NUL \<notin> set (cur @ [c])" by simp
    from Cons.IH [OF this] False show ?thesis by simp
  qed
qed

lemma env_entries_decomp:
  "\<exists>tail. NUL \<notin> set tail \<and> bs = env_record (env_entries bs) @ tail
      \<and> (\<forall>e\<in>set (env_entries bs). NUL \<notin> set e)"
  using split_nul_decomp [of "[]" bs] by (simp add: env_entries_def)

text \<open>Nothing is found behind the last \<open>NUL\<close> of a record.\<close>

lemma scan_after_last_NUL:
  assumes "NUL \<notin> set tail"
  shows "scan_str n (NUL # tail) 0 [] = None"
proof (rule ccontr)
  assume "scan_str n (NUL # tail) 0 [] \<noteq> None"
  then obtain v where "scan_str n (NUL # tail) 0 [] = Some v" by blast
  from scan_str_entry [OF this] obtain pre post
    where "NUL # tail = pre @ NUL # (env_key @ v) @ NUL # post" by blast
  then have "NUL \<in> set tail"
    by (cases pre) auto
  with assms show False by simp
qed

lemma scan_entries_lookup:
  assumes "\<forall>e\<in>set es. NUL \<notin> set e \<and> \<not> strict_prefix e env_key" and "NUL \<notin> set tail"
  shows "scan_str n (NUL # env_record es @ tail) 0 [] =
     (case find (prefix env_key) es of
        None \<Rightarrow> None
      | Some e \<Rightarrow>
          let v = drop (length env_key) e
          in if length v + 1 < n then Some v else None)"
  using assms
proof (induction es)
  case Nil
  then show ?case by (simp add: env_record_def scan_after_last_NUL)
next
  case (Cons e es)
  have rec: "env_record (e # es) = e @ NUL # env_record es"
    by (simp add: env_record_def)
  show ?case
  proof (cases "prefix env_key e")
    case True
    then obtain v where e: "e = env_key @ v"
      by (auto simp: prefix_def)
    with Cons.prems have v: "NUL \<notin> set v" by simp
    have "scan_str n (NUL # env_record (e # es) @ tail) 0 []
        = scan_str n (v @ NUL # env_record es @ tail) X509_USER_PROXY_LEN []"
      using match_key [of n "v @ NUL # env_record es @ tail" "[]"]
      by (simp add: e env_record_def)
    also have "\<dots> = (if length v + 1 < n then Some v else None)"
    proof (cases "length v + 1 < n")
      case True
      with copy_value [OF v, of "[]" n "env_record es @ tail"] show ?thesis by simp
    next
      case False
      with value_too_long [OF v, of n "[]" "NUL # env_record es @ tail"] show ?thesis by simp
    qed
    finally show ?thesis
      using True by (simp add: e)
  next
    case False
    with Cons.prems have "e \<parallel> env_key"
      by (auto simp: parallel_def strict_prefix_def)
    with Cons.prems have "scan_str n (NUL # e @ NUL # env_record es @ tail) 0 []
        = scan_str n (NUL # env_record es @ tail) 0 []"
      by (intro skip_entry) simp_all
    with Cons False show ?thesis
      by (simp add: rec)
  qed
qed

text \<open>
  On a record none of whose entries is a proper leading part of \<open>X509_USER_PROXY=\<close>,
  the scan of the code and the lookup of the specification agree: the first entry with
  the key decides, and a value that does not fit is a failure. No entry with a \<open>=\<close>
  in it is such a leading part, so the two agree on every record of entries of the form
  \<open>KEY=VALUE\<close>.
\<close>

lemma scan_str_tokenizer:
  assumes "\<forall>e\<in>set (env_entries bs). \<not> strict_prefix e env_key"
  shows "scan_str n (NUL # bs) 0 [] = tokenizer_lookup n bs"
proof -
  from env_entries_decomp [of bs] obtain tail where t: "NUL \<notin> set tail"
    and bs: "bs = env_record (env_entries bs) @ tail"
    and nn: "\<forall>e\<in>set (env_entries bs). NUL \<notin> set e"
    by blast
  from assms nn have "\<forall>e\<in>set (env_entries bs). NUL \<notin> set e \<and> \<not> strict_prefix e env_key"
    by simp
  from scan_entries_lookup [OF this t, of n] bs show ?thesis
    by (simp add: tokenizer_lookup_def)
qed

lemma GetProxyFileFromEnv_tokenizer:
  assumes "length (environ_name pid) < n" and "n \<le> length path"
    and "file_at H (snd (seteuid 0 p)) (environ_name pid) = Some fp"
    and "\<forall>e\<in>set (env_entries (readable fp)). \<not> strict_prefix e env_key"
  shows "found_path (GetProxyFileFromEnv H pid n path p) = tokenizer_lookup n (readable fp)"
  using assms scan_str_tokenizer [of "readable fp" n]
  by (simp add: found_path_GetProxyFileFromEnv env_lookup_def)

lemma entry_with_eq:
  assumes "CHR ''='' \<in> set e"
  shows "\<not> strict_prefix e env_key"
proof
  assume "strict_prefix e env_key"
  then obtain z zs where k: "env_key = e @ z # zs"
    by (auto elim: strict_prefixE')
  have "butlast env_key = e @ butlast (z # zs)"
    unfolding k by (simp add: butlast_append)
  then have "set e \<subseteq> set (butlast env_key)"
    by simp
  with assms show False
    by (auto simp: env_key_def)
qed

lemma GetProxyFileFromEnv_well_formed:
  assumes "length (environ_name pid) < n" and "n \<le> length path"
    and "file_at H (snd (seteuid 0 p)) (environ_name pid) = Some fp"
    and "\<forall>e\<in>set (env_entries (readable fp)). CHR ''='' \<in> set e"
  shows "found_path (GetProxyFileFromEnv H pid n path p) = tokenizer_lookup n (readable fp)"
  using assms entry_with_eq by (intro GetProxyFileFromEnv_tokenizer) auto

subsection \<open>Values that are too long\<close>

text \<open>
  An entry that is a proper leading part of \<open>X509_USER_PROXY=\<close> is matched up to its
  \<open>NUL\<close>; the \<open>NUL\<close> fails the comparison, \<open>key_idx\<close> is set to 0, and the scan goes
  on behind the \<open>NUL\<close> with the first byte of the next entry: that entry is passed over,
  whatever it is.
\<close>

lemma leading_part_entry:
  assumes "strict_prefix e env_key"
  shows "scan_str n (NUL # e @ NUL # rest) 0 acc = scan_str n rest 0 acc"
proof -
  from assms obtain y u where key: "env_key = e @ y # u"
    by (auto elim: strict_prefixE')
  have 1: "X509_USER_PROXY = [] @ (NUL # e) @ (y # u @ [NUL])"
    by (simp add: X509_USER_PROXY_eq key)
  have step1: "scan_str n ((NUL # e) @ NUL # rest) 0 acc
      = scan_str n (NUL # rest) (0 + length (NUL # e)) acc"
    by (rule match_part [OF 1]) simp_all
  have nth: "X509_USER_PROXY ! Suc (length e) = y"
    by (simp add: X509_USER_PROXY_eq key nth_append)
  from env_key_no_NUL have y: "y \<noteq> NUL"
    by (auto simp: key)
  have "length env_key = 16" by (simp add: env_key_def)
  then have lm: "Suc (length e) \<noteq> X509_USER_PROXY_LEN"
    by (simp add: key X509_USER_PROXY_LEN_eq)
  have step2: "scan_str n (NUL # rest) (Suc (length e)) acc = scan_str n rest 0 acc"
    using y nth lm by (simp add: scan_str.simps)
  from step1 step2 show ?thesis by simp
qed

lemma leading_part_hides_next:
  assumes "strict_prefix e env_key" and "NUL \<notin> set t"
  shows "scan_str n (NUL # e @ NUL # t @ NUL # rest) 0 acc = scan_str n (NUL # rest) 0 acc"
  using leading_part_entry [OF assms(1), of n "t @ NUL # rest" acc] skip_plain [OF assms(2), of n "NUL # rest" acc]
  by simp

text \<open>
  When no entry in front of the first entry with the key is a leading part of the key
  text, and the value of that entry does not fit (its first \<open>path_len - 1\<close> bytes hold
  no \<open>NUL\<close>), \<open>GetProxyFileFromEnv\<close> returns false, whatever follows.
\<close>

lemma scan_first_too_long:
  assumes "\<forall>e\<in>set es. NUL \<notin> set e \<and> e \<parallel> env_key" and "NUL \<notin> set v" and "n \<le> length v + 1"
  shows "scan_str n (NUL # env_record es @ env_key @ v @ rest) 0 [] = None"
proof -
  have "scan_str n (NUL # env_record es @ env_key @ v @ rest) 0 []
      = scan_str n (NUL # env_key @ v @ rest) 0 []"
    by (rule skip_entries [OF assms(1)])
  also have "\<dots> = scan_str n (v @ rest) X509_USER_PROXY_LEN []"
    by (rule match_key)
  also have "\<dots> = None"
    using assms(2,3) by (intro value_too_long) simp_all
  finally show ?thesis .
qed

lemma GetProxyFileFromEnv_first_too_long:
  assumes "0 < path_len" and "path_len \<le> length path"
    and "file_at H (snd (seteuid 0 p)) (environ_name pid) = Some fp"
    and "readable fp = env_record es @ env_key @ v @ rest"
    and "\<forall>e\<in>set es. NUL \<notin> set e \<and> e \<parallel> env_key"
    and "NUL \<notin> set v" and "path_len \<le> length v + 1"
  shows "\<exists>path'. GetProxyFileFromEnv H pid path_len path p = Returned (False, path', p)"
proof (cases "length (environ_name pid) < path_len")
  case False
  with GetProxyFileFromEnv_overflow [OF assms(1), of pid H path p] show ?thesis
    by simp
next
  case True
  have "env_lookup H pid path_len p = None"
    using scan_first_too_long [OF assms(5,6,7), of rest]
    by (simp add: env_lookup_def assms(3,4))
  with GetProxyFileFromEnv_result [OF True assms(2), of H p] show ?thesis
    by auto
qed

text \<open>
  When the value of every entry with the key does not fit, \<open>GetProxyFileFromEnv\<close>
  returns false; no hypothesis is made on the other entries.
\<close>

lemma GetProxyFileFromEnv_all_too_long:
  assumes "0 < path_len" and "path_len \<le> length path"
    and "file_at H (snd (seteuid 0 p)) (environ_name pid) = Some fp"
    and "\<forall>e\<in>set (env_entries (readable fp)).
           prefix env_key e \<longrightarrow> path_len \<le> length e - length env_key + 1"
  shows "\<exists>path'. GetProxyFileFromEnv H pid path_len path p = Returned (False, path', p)"
proof (cases "length (environ_name pid) < path_len")
  case False
  with GetProxyFileFromEnv_overflow [OF assms(1), of pid H path p] show ?thesis
    by simp
next
  case True
  have "scan_str path_len (NUL # readable fp) 0 [] = None"
  proof (rule ccontr)
    assume "scan_str path_len (NUL # readable fp) 0 [] \<noteq> None"
    then obtain v where "scan_str path_len (NUL # readable fp) 0 [] = Some v"
      by blast
    from scan_str_in_entries [OF this] assms(4) show False
      by auto
  qed
  then have "env_lookup H pid path_len p = None"
    by (simp add: env_lookup_def assms(3))
  with GetProxyFileFromEnv_result [OF True assms(2), of H p] show ?thesis
    by auto
qed

subsection \<open>The read loop\<close>

text \<open>
  The read loop appends everything that can be read from the offset of the stream on,
  and changes nothing of the stream but its offset.
\<close>

lemma read_loop_unfold:
  "read_loop f acc =
     (if length (fst (fread kBufSize f)) = kBufSize
      then read_loop (snd (fread kBufSize f)) (acc @ fst (fread kBufSize f))
      else (acc @ fst (fread kBufSize f), snd (fread kBufSize f)))"
  by (subst read_loop.simps) (auto simp: Let_def kBufSize_def split: prod.splits)

lemma fread_facts:
  "fst (fread n f) = take n (drop (pos f) (readable f))"
  "snd (fread n f) = f\<lparr>pos := pos f + length (take n (drop (pos f) (readable f)))\<rparr>"
  by (simp_all add: fread_def Let_def)

lemma read_loop_result:
  "\<exists>k. read_loop f acc = (acc @ drop (pos f) (readable f), f\<lparr>pos := k\<rparr>)"
proof (induction "length (readable f) - pos f" arbitrary: f acc rule: less_induct)
  case less
  define c where "c = take kBufSize (drop (pos f) (readable f))"
  define f' where "f' = f\<lparr>pos := pos f + length c\<rparr>"
  have fr: "fst (fread kBufSize f) = c" "snd (fread kBufSize f) = f'"
    by (simp_all add: fread_facts c_def f'_def)
  show ?case
  proof (cases "length c = kBufSize")
    case True
    then have "length (readable f') - pos f' < length (readable f) - pos f"
      by (simp add: f'_def c_def kBufSize_def min_def split: if_splits)
    from less [OF this, of "acc @ c"] obtain k
      where "read_loop f' (acc @ c) = ((acc @ c) @ drop (pos f') (readable f'), f'\<lparr>pos := k\<rparr>)"
      by blast
    moreover have "c @ drop (pos f') (readable f') = drop (pos f) (readable f)"
      using True append_take_drop_id [of kBufSize "drop (pos f) (readable f)"]
      by (simp add: f'_def c_def [symmetric] add.commute)
    ultimately have "read_loop f acc = (acc @ drop (pos f) (readable f), f\<lparr>pos := k\<rparr>)"
      using True by (subst read_loop_unfold) (simp add: fr f'_def)
    then show ?thesis by blast
  next
    case False
    then have "c = drop (pos f) (readable f)"
      by (simp add: c_def min_def split: if_splits)
    with False have "read_loop f acc = (acc @ drop (pos f) (readable f), f\<lparr>pos := pos f + length c\<rparr>)"
      by (subst read_loop_unfold) (simp add: fr f'_def)
    then show ?thesis by blast
  qed
qed

lemma read_loop_fst: "fst (read_loop f acc) = acc @ drop (pos f) (readable f)"
  using read_loop_result [of f acc] by auto

lemma read_loop_snd: "rewind (snd (read_loop f acc)) = rewind f"
  using read_loop_result [of f acc] by (auto simp: rewind_def)

lemma GetX509Proxy_eq:
  "GetX509Proxy H authz_req proxy p =
     (case GetProxyFileInternal H (req_pid authz_req) (req_uid authz_req) (req_gid authz_req) p of
        Aborted \<Rightarrow> Aborted
      | Returned (None, q) \<Rightarrow> Returned (None, proxy, q)
      | Returned (Some f, q) \<Rightarrow> Returned (Some (rewind f), drop (pos f) (readable f), q))"
proof -
  have "(case read_loop f [] of (proxy, fproxy) \<Rightarrow> Returned (Some (rewind fproxy), proxy, q))
      = Returned (Some (rewind f), drop (pos f) (readable f), q)" for f and q :: proc
    using read_loop_fst [of f "[]"] read_loop_snd [of f "[]"]
    by (cases "read_loop f []") simp
  then show ?thesis
    by (simp add: GetX509Proxy_def Let_def split: outcome.splits option.splits prod.splits)
qed

lemma container_steps_file:
  "container_steps H cn rn uid gid path p = Returned (Some f, p') \<Longrightarrow> pos f = 0"
  unfolding container_steps_def
  by (auto simp: Let_def fopen_def rewind_def split: if_splits prod.splits option.splits)

subsection \<open>Concrete inputs\<close>

lemma fmt_d_42: "fmt_d 42 = ''42''"
  by (simp add: fmt_d_def string_of_nat.simps)

lemma environ_name_42: "environ_name 42 = ''/proc/42/environ''"
  by (simp add: environ_name_def fmt_d_42)

lemma readable_plain [simp]: "readable (plain_file bs) = bs"
  by (simp add: readable_def plain_file_def)

lemma env_lookup_environ_host:
  "env_lookup (environ_host bs) 42 n p = scan_str n (NUL # bs) 0 []"
  by (simp add: env_lookup_def environ_host_def test_host_def environ_name_42)

lemma PATH_MAX_uninit: "PATH_MAX \<le> length (uninit PATH_MAX)"
  by simp


subsection \<open>Evaluation on the concrete hosts\<close>

lemma fopen_test_host [simp]:
  "fopen (test_host allow files) path q = map_option rewind (map_of files path)"
  by (simp add: fopen_def test_host_def)

lemmas steps_eval =
  container_steps_def candidate_path_def env_lookup_def test_host_def
  proc_user_def proc_root_def chroot_needs_root_def seteuid_def setegid_def geteuid_def getegid_def
  open_dir_def chdir_def chroot_def fchdir_def resolve_def cwd_name_def root_name_def
  fallback_name_def environ_name_def fmt_d_42 Let_def fopen_def rewind_def plain_file_def

lemma root_name_42: "root_name 42 = ''/proc/42/root''" "cwd_name 42 = ''/proc/42/cwd''"
  by (simp_all add: root_name_def cwd_name_def fmt_d_42)

lemma c3_lookup: "env_lookup c3_host 42 PATH_MAX proc_user = Some ''/home/alice/.proxy''"
proof -
  have "scan_str PATH_MAX (NUL # env_key @ ''/home/alice/.proxy'' @ NUL # []) 0 []
      = scan_str PATH_MAX (''/home/alice/.proxy'' @ NUL # []) X509_USER_PROXY_LEN []"
    by (rule match_key)
  also have "\<dots> = Some ([] @ ''/home/alice/.proxy'')"
    by (rule copy_value) (simp_all add: NUL_def PATH_MAX_def)
  finally show ?thesis
    by (simp add: env_lookup_def c3_host_def test_host_def environ_name_42 env_record_def)
qed

lemma tmp_host_fetch:
  "GetProxyFileInternal (tmp_host f) 42 1000 1000 proc_root = Returned (Some (rewind f), proc_root)"
  unfolding GetProxyFileInternal_steps
  by (simp add: tmp_host_def steps_eval string_of_nat.simps fmt_d_def)

lemma tmp_host_proxy:
  "GetX509Proxy (tmp_host f) req_1000 proxy proc_root
     = Returned (Some (rewind f), readable f, proc_root)"
  by (simp add: GetX509Proxy_eq req_1000_def tmp_host_fetch rewind_def)

subsection \<open>The reversal\<close>

lemma container_steps_reversal:
  assumes "root_changed H pid p"
  shows "(container_steps H (cwd_name pid) (root_name pid) uid gid path p = Aborted)
     = reversal_fails H p (at_reversal H pid uid gid p)"
  using assms name_not_slash [of pid]
  unfolding container_steps_def root_changed_def reversal_fails_def at_reversal_def in_container_def
  by (auto simp: Let_def chdir_def chroot_def fchdir_def open_dir_def resolve_def geteuid_def
      getegid_def split: if_splits prod.splits option.splits)

lemma container_steps_refused:
  assumes "chroot_refused H pid p"
  shows "(container_steps H (cwd_name pid) (root_name pid) uid gid path p = Aborted)
     = chdir_undo_fails H pid p"
  using assms name_not_slash [of pid]
  unfolding container_steps_def chroot_refused_def chdir_undo_fails_def
  by (auto simp: Let_def chdir_def chroot_def fchdir_def open_dir_def resolve_def geteuid_def
      getegid_def split: if_splits prod.splits option.splits)

subsection \<open>The fallback name of a user id below \<open>2 ^ 31\<close>\<close>

lemma sint_small: "unat (w :: 32 word) < 2 ^ 31 \<Longrightarrow> sint w = int (unat w)"
proof -
  assume "unat w < 2 ^ 31"
  then have "int (unat w) < int (2 ^ 31)"
    by (simp only: of_nat_less_iff)
  then have "uint w < 2 ^ 31"
    by simp
  moreover have "- (2 ^ 31) \<le> (0 :: int)"
    by simp
  then have "- (2 ^ 31) \<le> uint w"
    by (rule order_trans) simp
  ultimately have "signed_take_bit 31 (uint w) = uint w"
    by (simp only: signed_take_bit_int_eq_self_iff)
  then show ?thesis
    by (simp add: sint_uint)
qed

lemma fallback_name_small:
  "unat uid < 2 ^ 31 \<Longrightarrow> fallback_name uid = ''/tmp/x509up_u'' @ string_of_nat (unat uid)"
  by (simp add: fallback_name_def fmt_d_def sint_small)

text \<open>
  When the scan finds nothing (the record cannot be opened, or holds no entry that the
  scan accepts), the path handed to \<open>fopen\<close> is the fallback name; for a user id below
  \<open>2 ^ 31\<close> that is \<open>/tmp/x509up_u\<close> and the decimal numeral of the id.
\<close>

lemma candidate_path_fallback:
  "env_lookup H pid PATH_MAX p = None \<Longrightarrow> unat uid < 2 ^ 31 \<Longrightarrow>
   candidate_path H pid uid p = ''/tmp/x509up_u'' @ string_of_nat (unat uid)"
  by (simp add: candidate_path_def fallback_name_small)

subsection \<open>The ids across the call\<close>

lemma ids_roundtrip:
  assumes reg: "ids_regular p"
    and q: "ruid q = ruid p" "suid q = suid p" "rgid q = rgid p" "sgid q = sgid p"
      "euid q = euid (snd (seteuid 0 p))" "egid q = egid p"
  shows "snd (seteuid (euid p) (snd (setegid (egid p) (snd (seteuid 0
            (snd (seteuid uid (snd (setegid gid q)))))))))
     = q\<lparr>euid := euid p, egid := egid p\<rparr>"
proof (cases "euid p = 0 \<or> ruid p = 0 \<or> suid p = 0")
  case True
  with reg have z: "ruid p = 0 \<or> suid p = 0"
    by (auto simp: ids_regular_def)
  from True q have e: "euid q = 0"
    by (auto simp: seteuid_def)
  have 1: "snd (setegid gid q) = q\<lparr>egid := gid\<rparr>"
    using e by (auto simp: setegid_def)
  have 2: "snd (seteuid uid (q\<lparr>egid := gid\<rparr>)) = q\<lparr>egid := gid, euid := uid\<rparr>"
    using e by (auto simp: seteuid_def)
  have 3: "snd (seteuid 0 (q\<lparr>egid := gid, euid := uid\<rparr>)) = q\<lparr>egid := gid, euid := 0\<rparr>"
    using z q by (auto simp: seteuid_def)
  have 4: "snd (setegid (egid p) (q\<lparr>egid := gid, euid := 0\<rparr>)) = q\<lparr>egid := egid p, euid := 0\<rparr>"
    by (auto simp: setegid_def)
  have 5: "snd (seteuid (euid p) (q\<lparr>egid := egid p, euid := 0\<rparr>))
      = q\<lparr>egid := egid p, euid := euid p\<rparr>"
    by (auto simp: seteuid_def)
  show ?thesis
    unfolding 1 2 3 4 5 by simp
next
  case False
  then have nz: "euid p \<noteq> 0" "ruid p \<noteq> 0" "suid p \<noteq> 0"
    by simp_all
  with q have e: "euid q = euid p"
    by (auto simp: seteuid_def)
  from reg have r: "euid p = ruid p \<or> euid p = suid p" "egid p = rgid p \<or> egid p = sgid p"
    by (simp_all add: ids_regular_def)
  have "snd (setegid gid q) = q\<lparr>egid := gid\<rparr> \<or> snd (setegid gid q) = q\<lparr>egid := egid q\<rparr>"
    by (simp add: setegid_def)
  then obtain g1 where 1: "snd (setegid gid q) = q\<lparr>egid := g1\<rparr>"
    by blast
  obtain e1 where 2: "snd (seteuid uid (q\<lparr>egid := g1\<rparr>)) = q\<lparr>egid := g1, euid := e1\<rparr>"
    and e1: "e1 \<noteq> 0"
  proof (cases "uid = ruid q \<or> uid = euid q \<or> uid = suid q")
    case True
    with nz e q
    have "snd (seteuid uid (q\<lparr>egid := g1\<rparr>)) = q\<lparr>egid := g1, euid := uid\<rparr>" "uid \<noteq> 0"
      by (auto simp: seteuid_def)
    then show ?thesis by (rule that)
  next
    case False
    with nz e q
    have "snd (seteuid uid (q\<lparr>egid := g1\<rparr>)) = q\<lparr>egid := g1, euid := euid p\<rparr>" "euid p \<noteq> 0"
      by (auto simp: seteuid_def)
    then show ?thesis by (rule that)
  qed
  have 3: "snd (seteuid 0 (q\<lparr>egid := g1, euid := e1\<rparr>)) = q\<lparr>egid := g1, euid := e1\<rparr>"
    using nz q e1 by (auto simp: seteuid_def)
  have 4: "snd (setegid (egid p) (q\<lparr>egid := g1, euid := e1\<rparr>)) = q\<lparr>egid := egid p, euid := e1\<rparr>"
    using r q by (auto simp: setegid_def)
  have 5: "snd (seteuid (euid p) (q\<lparr>egid := egid p, euid := e1\<rparr>))
      = q\<lparr>egid := egid p, euid := euid p\<rparr>"
    using r q by (auto simp: seteuid_def)
  show ?thesis
    unfolding 1 2 3 4 5 by simp
qed

lemma set_id_commute:
  "snd (seteuid u (q\<lparr>cwd := d\<rparr>)) = (snd (seteuid u q))\<lparr>cwd := d\<rparr>"
  "snd (seteuid u (q\<lparr>root := d\<rparr>)) = (snd (seteuid u q))\<lparr>root := d\<rparr>"
  "snd (setegid g (q\<lparr>cwd := d\<rparr>)) = (snd (setegid g q))\<lparr>cwd := d\<rparr>"
  "snd (setegid g (q\<lparr>root := d\<rparr>)) = (snd (setegid g q))\<lparr>root := d\<rparr>"
  by (simp_all add: seteuid_def setegid_def)

lemma seteuid_0_cases: "snd (seteuid 0 p) = p \<or> snd (seteuid 0 p) = p\<lparr>euid := 0\<rparr>"
  by (simp add: seteuid_def)

lemma ids_roundtrip_start:
  assumes "ids_regular p"
  shows "snd (seteuid (euid p) (snd (setegid (egid p) (snd (seteuid 0
            (snd (seteuid uid (snd (setegid gid (snd (seteuid 0 p)))))))))))
     = p"
proof -
  have "snd (seteuid (euid p) (snd (setegid (egid p) (snd (seteuid 0
            (snd (seteuid uid (snd (setegid gid (snd (seteuid 0 p)))))))))))
     = (snd (seteuid 0 p))\<lparr>euid := euid p, egid := egid p\<rparr>"
    by (rule ids_roundtrip [OF assms]) simp_all
  also have "\<dots> = p"
    using seteuid_0_cases [of p] by auto
  finally show ?thesis .
qed

text \<open>
  Off the branch in which \<open>chdir\<close> succeeds and \<open>chroot\<close> is refused, a call that
  returns leaves a process with regular ids exactly as it found it: ids, root directory
  and working directory.
\<close>

lemma GetProxyFileInternal_restores:
  assumes ret: "GetProxyFileInternal H pid uid gid p = Returned (fp, p')"
    and reg: "ids_regular p"
    and nr: "\<not> chroot_refused H pid p"
  shows "p' = p"
proof -
  define q where "q = snd (seteuid 0 p)"
  have chain: "snd (seteuid (euid p) (snd (setegid (egid p) (snd (seteuid 0
      (snd (seteuid uid (snd (setegid gid q))))))))) = p"
    unfolding q_def by (rule ids_roundtrip_start [OF reg])
  have undo: "snd (seteuid (euid p) q) = p"
    unfolding q_def using seteuid_restore [of p] by (simp add: geteuid_def)
  have same: "root q = root p" "cwd q = cwd p"
    by (simp_all add: q_def)
  from ret nr name_not_slash [of pid] show ?thesis
    unfolding GetProxyFileInternal_steps container_steps_def chroot_refused_def q_def [symmetric]
    by (simp add: Let_def geteuid_def getegid_def open_dir_def chdir_def chroot_def fchdir_def
          resolve_def split: if_splits prod.splits option.splits)
       (auto simp: set_id_commute chain undo same)
qed

text \<open>
  When \<open>chdir\<close> into the working directory of the target is refused, the call goes on
  without the change of root: the path is opened by a process whose root and working
  directory are those of the caller.
\<close>

lemma GetProxyFileInternal_without_chdir:
  assumes "permits H (snd (seteuid 0 p)) (Open ''/'')"
    and "permits H (snd (seteuid 0 p)) (Open ''.'')"
    and "\<not> permits H (snd (seteuid 0 p)) (Chdir (cwd_name pid))"
  shows "\<exists>q p'. GetProxyFileInternal H pid uid gid p
            = Returned (fopen H (candidate_path H pid uid p) q, p')
          \<and> root q = root p \<and> cwd q = cwd p"
  using assms unfolding GetProxyFileInternal_steps container_steps_def
  apply (simp add: Let_def open_dir_def chdir_def)
  apply (rule exI [where x = "snd (seteuid uid (snd (setegid gid (snd (seteuid 0 p)))))"])
  apply simp
  done

subsection \<open>The stream and the buffer that GetX509Proxy returns\<close>

lemma GetX509Proxy_file:
  assumes "GetX509Proxy H authz_req proxy p = Returned (Some f, proxy', p')"
  shows "pos f = 0 \<and> proxy' = readable f"
proof -
  from assms obtain f0 where
    g: "GetProxyFileInternal H (req_pid authz_req) (req_uid authz_req) (req_gid authz_req) p
        = Returned (Some f0, p')"
    and f: "f = rewind f0" and p: "proxy' = drop (pos f0) (readable f0)"
    by (auto simp: GetX509Proxy_eq split: outcome.splits option.splits prod.splits)
  from g have "pos f0 = 0"
    unfolding GetProxyFileInternal_steps by (rule container_steps_file)
  with f p show ?thesis by (simp add: rewind_def)
qed

section \<open>The scan of the environment: C1, C5, C9\<close>




text \<open>
  C5, at the input where the code departs from it. The record has the entries \<open>X\<close>,
  \<open>X509_USER_PROXY=\<close> with a value of 5000 bytes, and \<open>X509_USER_PROXY=/b\<close>. The
  first entry with the key has a value that is too long for the buffer of \<open>PATH_MAX\<close>
  bytes. With these two entries alone the call returns false, as the claim says. With
  the entry \<open>X\<close> in front, the \<open>NUL\<close> that ends it is taken as a mismatch and not looked
  at again as the start of the key, the entry with the long value is passed over, and
  the call returns true with the path \<open>/b\<close>. (\<open>GetProxyFileFromEnv_first_too_long\<close>
  above: the call returns false whenever no entry in front of the first entry with the
  key is a leading part of the key text, so on every record of entries of the form
  \<open>KEY=VALUE\<close>. \<open>GetProxyFileFromEnv_whole_entry\<close> above: a path that the call stores is
  the whole value of an entry, up to its \<open>NUL\<close>, never a part of a value.)
\<close>

theorem GetProxyFileFromEnv_long_value_not_rejected:
  "find (prefix env_key) (env_entries c5_record) = Some (env_key @ replicate 5000 (CHR ''p''))
   \<and> PATH_MAX < length (replicate 5000 (CHR ''p''))
   \<and> found_path (GetProxyFileFromEnv
        (environ_host (env_record [env_key @ replicate 5000 (CHR ''p''), env_key @ ''/b'']))
        42 PATH_MAX (uninit PATH_MAX) proc_root) = None
   \<and> found_path (GetProxyFileFromEnv (environ_host c5_record) 42 PATH_MAX (uninit PATH_MAX)
        proc_root) = Some ''/b''"
proof -
  have es: "env_entries c5_record = [''X'', env_key @ replicate 5000 (CHR ''p''), env_key @ ''/b'']"
    unfolding c5_record_def by (rule env_entries_record) (simp add: NUL_def env_key_def)
  have 1: "find (prefix env_key) (env_entries c5_record) = Some (env_key @ replicate 5000 (CHR ''p''))"
    unfolding es by (simp add: env_key_def)
  have 2: "PATH_MAX < length (replicate 5000 (CHR ''p''))"
    by (simp add: PATH_MAX_def)
  have "scan_str PATH_MAX (NUL # env_record [] @ env_key @ replicate 5000 (CHR ''p'') @
      NUL # env_record [env_key @ ''/b'']) 0 [] = None"
    by (rule scan_first_too_long) (simp_all add: NUL_def PATH_MAX_def)
  then have 3: "scan_str PATH_MAX
      (NUL # env_record [env_key @ replicate 5000 (CHR ''p''), env_key @ ''/b'']) 0 [] = None"
    by (simp add: env_record_def)
  have x: "strict_prefix ''X'' env_key"
    by (simp add: env_key_def)
  have t: "NUL \<notin> set (env_key @ replicate 5000 (CHR ''p''))"
    by (simp add: NUL_def env_key_def)
  have "scan_str PATH_MAX (NUL # c5_record) 0 []
      = scan_str PATH_MAX (NUL # ''X'' @ NUL # (env_key @ replicate 5000 (CHR ''p'')) @
          NUL # env_key @ ''/b'' @ [NUL]) 0 []"
    by (simp add: c5_record_def env_record_def)
  also have "\<dots> = scan_str PATH_MAX (NUL # env_key @ ''/b'' @ [NUL]) 0 []"
    by (rule leading_part_hides_next [OF x t])
  also have "\<dots> = scan_str PATH_MAX (''/b'' @ [NUL]) X509_USER_PROXY_LEN []"
    by (rule match_key)
  also have "\<dots> = Some ([] @ ''/b'')"
    by (rule copy_value) (simp_all add: NUL_def PATH_MAX_def)
  finally have 4: "scan_str PATH_MAX (NUL # c5_record) 0 [] = Some ''/b''"
    by simp
  from 1 2 3 4 show ?thesis
    by (simp add: found_path_GetProxyFileFromEnv [OF environ_name_fits PATH_MAX_uninit]
        env_lookup_environ_host)
qed

text \<open>
  C9, at the input where the code departs from it. The record has the entries \<open>X\<close>,
  \<open>X509_USER_PROXY=/a\<close> and \<open>X509_USER_PROXY=/b\<close>. The first entry is a leading part
  of the key; the NUL that ends it fails the comparison with \<open>5\<close>, \<open>key_idx\<close> is set
  to 0, and the next byte read is the \<open>X\<close> of the second entry: the NUL is not looked
  at again as the start of the key, so the second entry is passed over, and the value
  returned is that of the third. (\<open>GetProxyFileFromEnv_tokenizer\<close> above: on every
  record without an entry that is a proper leading part of \<open>X509_USER_PROXY=\<close>, the
  scan returns what the lookup of the specification returns.)
\<close>

theorem GetProxyFileFromEnv_skips_entry_after_prefix:
  "found_path (GetProxyFileFromEnv
      (environ_host (env_record [''X'', env_key @ ''/a'', env_key @ ''/b'']))
      42 PATH_MAX (uninit PATH_MAX) proc_root) = Some ''/b''"
proof -
  have "scan_str PATH_MAX (NUL # env_record [''X'', env_key @ ''/a'', env_key @ ''/b'']) 0 []
      = Some ''/b''"
    by (simp add: env_record_def env_key_def scan_str.simps X509_USER_PROXY_def
        X509_USER_PROXY_LEN_eq NUL_def PATH_MAX_def)
  then show ?thesis
    by (simp add: found_path_GetProxyFileFromEnv [OF environ_name_fits PATH_MAX_uninit]
        env_lookup_environ_host)
qed

section \<open>The change of identity and of root: C2, C3, C4, C6\<close>

text \<open>
  C2, at the input where the code departs from it. The caller is a plain user with root
  directory 1 and working directory 2, the record of process 42 cannot be opened, and
  the host lets \<open>chdir\<close> into \<open>/proc/42/cwd\<close> through and refuses \<open>chroot\<close> to a
  process that is not the superuser. The code then calls \<open>fchdir(fd)\<close>, where \<open>fd\<close> is
  the descriptor of the old root directory, and returns \<open>NULL\<close>: the working directory
  after the call is directory 1, not directory 2. (\<open>GetProxyFileInternal_restores\<close>
  above: on every other path that returns, a process with regular ids is left as it was.)
\<close>

theorem GetProxyFileInternal_leaves_cwd_at_root:
  "GetProxyFileInternal (test_host chroot_needs_root []) 42 1000 1000 proc_user
     = Returned (None, proc_user\<lparr>cwd := 1\<rparr>)
   \<and> cwd proc_user = 2"
  unfolding GetProxyFileInternal_steps
  by (simp add: steps_eval)

text \<open>
  C3, at the input where the code departs from it. The same caller and the same rule
  for \<open>chroot\<close>; the environment of process 42 names \<open>/home/alice/.proxy\<close>, and the
  caller can open that file in its own namespace. The call returns \<open>NULL\<close> without
  opening it. (\<open>GetProxyFileInternal_without_chdir\<close> above: the call degrades as the
  claim says when it is \<open>chdir\<close> that is refused.)
\<close>

theorem GetProxyFileInternal_fails_when_chroot_refused:
  "fopen c3_host ''/home/alice/.proxy'' proc_user = Some (plain_file ''CERT'')
   \<and> GetProxyFileInternal c3_host 42 1000 1000 proc_user
       = Returned (None, proc_user\<lparr>cwd := 1\<rparr>)"
  unfolding GetProxyFileInternal_steps candidate_path_def c3_lookup
  by (simp add: c3_host_def steps_eval)

text \<open>
  C4. A call that returns leaves the root directory of the process as it was, on every
  host and for every process and request. Whenever the root was changed (both
  descriptors opened, \<open>chdir\<close> and \<open>chroot\<close> into the container let through), the
  process is terminated if and only if one of the three calls of the reversal is
  refused in the state in which the code makes it. And whenever \<open>chdir\<close> was let
  through and \<open>chroot\<close> was refused, the process is terminated if and only if the
  \<open>fchdir\<close> to the saved root descriptor is refused.
\<close>

theorem GetProxyFileInternal_never_returns_under_other_root:
  "(GetProxyFileInternal H pid uid gid p = Returned (fp, p') \<longrightarrow> root p' = root p)
   \<and> (root_changed H pid p \<longrightarrow>
        (GetProxyFileInternal H pid uid gid p = Aborted)
          = reversal_fails H p (at_reversal H pid uid gid p))
   \<and> (chroot_refused H pid p \<longrightarrow>
        (GetProxyFileInternal H pid uid gid p = Aborted) = chdir_undo_fails H pid p)"
  unfolding GetProxyFileInternal_steps
proof (intro conjI impI)
  assume "container_steps H (cwd_name pid) (root_name pid) uid gid (candidate_path H pid uid p) p
      = Returned (fp, p')"
  then show "root p' = root p"
    by (rule container_steps_root)
next
  assume "root_changed H pid p"
  then show "(container_steps H (cwd_name pid) (root_name pid) uid gid (candidate_path H pid uid p) p
      = Aborted) = reversal_fails H p (at_reversal H pid uid gid p)"
    by (rule container_steps_reversal)
next
  assume "chroot_refused H pid p"
  then show "(container_steps H (cwd_name pid) (root_name pid) uid gid (candidate_path H pid uid p) p
      = Aborted) = chdir_undo_fails H pid p"
    by (rule container_steps_refused)
qed

text \<open>
  Three runs for C4. The superuser on a host that refuses the \<open>chroot\<close> back: the root
  is changed and the process is terminated. The superuser on a host that lets it
  through: the call returns (no file is there to open) with the root as before. A plain
  user on a host that refuses \<open>chroot\<close> and \<open>fchdir\<close>: the process is terminated.
\<close>

theorem GetProxyFileInternal_never_returns_under_other_root_witness:
  "GetProxyFileInternal (test_host no_way_back []) 42 1000 1000 proc_root = Aborted
   \<and> root_changed (test_host no_way_back []) 42 proc_root
   \<and> GetProxyFileInternal (test_host chroot_needs_root []) 42 1000 1000 proc_root
       = Returned (None, proc_root)
   \<and> GetProxyFileInternal (test_host no_chroot_no_fchdir []) 42 1000 1000 proc_user = Aborted
   \<and> chroot_refused (test_host no_chroot_no_fchdir []) 42 proc_user"
proof -
  have ch: "root_changed (test_host no_way_back []) 42 proc_root"
    by (simp add: root_changed_def root_name_42 test_host_def no_way_back_def Let_def)
  have rf: "reversal_fails (test_host no_way_back []) proc_root
      (at_reversal (test_host no_way_back []) 42 1000 1000 proc_root)"
    by (simp add: reversal_fails_def test_host_def no_way_back_def)
  have ret: "GetProxyFileInternal (test_host chroot_needs_root []) 42 1000 1000 proc_root
      = Returned (None, proc_root)"
    unfolding GetProxyFileInternal_steps
    by (simp add: steps_eval string_of_nat.simps fmt_d_def)
  have cr: "chroot_refused (test_host no_chroot_no_fchdir []) 42 proc_user"
    by (simp add: chroot_refused_def root_name_42 test_host_def no_chroot_no_fchdir_def Let_def)
  have uf: "chdir_undo_fails (test_host no_chroot_no_fchdir []) 42 proc_user"
    by (simp add: chdir_undo_fails_def test_host_def no_chroot_no_fchdir_def Let_def)
  from GetProxyFileInternal_never_returns_under_other_root
    [of "test_host no_way_back []" 42 1000 1000 proc_root None proc_root] ch rf
  have 1: "GetProxyFileInternal (test_host no_way_back []) 42 1000 1000 proc_root = Aborted"
    by blast
  from GetProxyFileInternal_never_returns_under_other_root
    [of "test_host chroot_needs_root []" 42 1000 1000 proc_root None proc_root] ret
  have 2: "root proc_root = root proc_root" by blast
  from GetProxyFileInternal_never_returns_under_other_root
    [of "test_host no_chroot_no_fchdir []" 42 1000 1000 proc_user None proc_user] cr uf
  have 3: "GetProxyFileInternal (test_host no_chroot_no_fchdir []) 42 1000 1000 proc_user = Aborted"
    by blast
  from 1 2 3 ch ret cr show ?thesis by simp
qed

text \<open>
  C6, at the input where the code departs from it. The request is for user id
  3000000000, the record of process 42 cannot be opened, the caller is the superuser.
  \<open>snprintf\<close> is given the \<open>uid_t\<close> for a \<open>%d\<close>: the file that the call opens is
  \<open>/tmp/x509up_u-1294967296\<close>, and a file \<open>/tmp/x509up_u3000000000\<close> is not found.
  (\<open>candidate_path_fallback\<close> above: for a user id below \<open>2 ^ 31\<close> the path is as the
  claim says.)
\<close>

theorem GetProxyFileInternal_prints_uid_signed:
  "GetProxyFileInternal
      (test_host chroot_needs_root [(''/tmp/x509up_u-1294967296'', plain_file ''CERT'')])
      42 3000000000 100 proc_root
     = Returned (Some (plain_file ''CERT''), proc_root)
   \<and> GetProxyFileInternal
      (test_host chroot_needs_root [(''/tmp/x509up_u3000000000'', plain_file ''CERT'')])
      42 3000000000 100 proc_root
     = Returned (None, proc_root)"
  unfolding GetProxyFileInternal_steps
  by (simp add: steps_eval string_of_nat.simps fmt_d_def)

section \<open>The stream and the buffer: C7, C8, C10\<close>

text \<open>
  C7, as amended. A call of \<open>GetX509Proxy\<close> that returns gives \<open>NULL\<close>, or a stream
  and a buffer that holds every byte of the file that can be read: all the bytes of the
  file when no read of it fails.
\<close>

theorem GetX509Proxy_buffer:
  "GetX509Proxy H authz_req proxy p = Returned (r, proxy', p') \<Longrightarrow>
   r = None \<or> (\<exists>f. r = Some f \<and> proxy' = readable f \<and> (eio f = None \<longrightarrow> proxy' = bytes f))"
  using GetX509Proxy_file [of H authz_req proxy p _ proxy' p']
  by (cases r) (auto simp: readable_def)

text \<open>A run for C7: the superuser fetches the four bytes of \<open>/tmp/x509up_u1000\<close>.\<close>

theorem GetX509Proxy_buffer_witness:
  "GetX509Proxy (tmp_host (plain_file ''CERT'')) req_1000 ''old'' proc_root
     = Returned (Some (plain_file ''CERT''), ''CERT'', proc_root)
   \<and> ''CERT'' = bytes (plain_file ''CERT'')"
proof -
  have e: "GetX509Proxy (tmp_host (plain_file ''CERT'')) req_1000 ''old'' proc_root
     = Returned (Some (plain_file ''CERT''), ''CERT'', proc_root)"
    by (simp add: tmp_host_proxy rewind_def plain_file_def readable_def)
  from GetX509Proxy_buffer [OF e] e show ?thesis
    by (auto simp: plain_file_def)
qed

text \<open>
  C7 as it is stated fails when a read fails: the file has eleven bytes, the medium
  fails behind the fourth, \<open>fread\<close> returns 4, which is not \<open>kBufSize\<close>, the loop ends,
  and the call returns the stream with a buffer of four bytes. The code has no call of
  \<open>ferror\<close>.
\<close>

theorem GetX509Proxy_partial_counterexample:
  "GetX509Proxy (tmp_host \<lparr>bytes = ''CERTIFICATE'', eio = Some 4, pos = 0\<rparr>) req_1000 ''old''
      proc_root
     = Returned (Some \<lparr>bytes = ''CERTIFICATE'', eio = Some 4, pos = 0\<rparr>, ''CERT'', proc_root)"
  by (simp add: tmp_host_proxy rewind_def readable_def)



text \<open>
  C10. When \<open>GetX509Proxy\<close> returns \<open>NULL\<close>, the string \<open>proxy\<close> of the caller is as it
  was before the call.
\<close>

theorem GetX509Proxy_NULL_keeps_proxy:
  "GetX509Proxy H authz_req proxy p = Returned (None, proxy', p') \<Longrightarrow> proxy' = proxy"
  by (auto simp: GetX509Proxy_eq split: outcome.splits option.splits prod.splits)

text \<open>A run for C10: no file is there to open, and the string keeps its three bytes.\<close>

theorem GetX509Proxy_NULL_keeps_proxy_witness:
  "GetX509Proxy (test_host chroot_needs_root []) req_1000 ''old'' proc_root
     = Returned (None, ''old'', proc_root)"
proof -
  have "GetProxyFileInternal (test_host chroot_needs_root []) 42 1000 1000 proc_root
      = Returned (None, proc_root)"
    unfolding GetProxyFileInternal_steps
    by (simp add: steps_eval string_of_nat.simps fmt_d_def)
  then obtain proxy' where
    e: "GetX509Proxy (test_host chroot_needs_root []) req_1000 ''old'' proc_root
     = Returned (None, proxy', proc_root)"
    by (simp add: GetX509Proxy_eq req_1000_def)
  from GetX509Proxy_NULL_keeps_proxy [OF e] e show ?thesis
    by simp
qed

end
